theory Spec2Isabelle
  imports Main
begin

section \<open>Strings and character classes\<close>

text \<open>
  A JavaScript string is modelled as a \<^typ>\<open>string\<close>: a list of code units, here the code
  units below 256. The character classes of the regular expressions of the parser are
  predicates on one code unit, read off the ECMAScript definitions and cut to that range.
\<close>

definition code :: "char \<Rightarrow> nat" where
  "code c = of_char c"

definition is_digit :: "char \<Rightarrow> bool" where
  \<comment> \<open>\<open>\d\<close>\<close>
  "is_digit c = (48 \<le> code c \<and> code c \<le> 57)"

definition is_word :: "char \<Rightarrow> bool" where
  \<comment> \<open>\<open>\w\<close>: letters, digits and the underscore\<close>
  "is_word c = ((65 \<le> code c \<and> code c \<le> 90) \<or> (97 \<le> code c \<and> code c \<le> 122)
                \<or> (48 \<le> code c \<and> code c \<le> 57) \<or> code c = 95)"

definition is_space :: "char \<Rightarrow> bool" where
  \<comment> \<open>\<open>\s\<close>, and what \<open>trim\<close> strips: tab, line feed, vertical tab, form feed,
      carriage return, space, no-break space\<close>
  "is_space c = ((9 \<le> code c \<and> code c \<le> 13) \<or> code c = 32 \<or> code c = 160)"

definition is_line_terminator :: "char \<Rightarrow> bool" where
  "is_line_terminator c = (code c = 10 \<or> code c = 13)"

definition is_dot :: "char \<Rightarrow> bool" where
  \<comment> \<open>\<open>.\<close> without the \<open>s\<close> flag\<close>
  "is_dot c = (\<not> is_line_terminator c)"

definition is_any :: "char \<Rightarrow> bool" where
  \<comment> \<open>\<open>[\s\S]\<close>\<close>
  "is_any c = (is_space c \<or> \<not> is_space c)"

definition is_chr :: "char \<Rightarrow> char \<Rightarrow> bool" where
  "is_chr a c = (c = a)"

definition not_chr :: "char \<Rightarrow> char \<Rightarrow> bool" where
  \<comment> \<open>\<open>[^a]\<close>\<close>
  "not_chr a c = (c \<noteq> a)"

section \<open>Regular expressions with backtracking\<close>

text \<open>
  The parser is a pipeline of \<open>String.prototype.replace\<close> calls with regular expressions, so
  the embedding carries a matcher for the constructs these expressions use: character
  classes, the multiline assertions \<open>^\<close> and \<open>$\<close>, sequences, capture groups and greedy or
  lazy quantifiers. \<open>matches r s i c\<close> lists the end points (with their captures) of the
  matches of \<open>r\<close> in \<open>s\<close> that start at \<open>i\<close>, in the order in which a backtracking matcher
  tries them; the head of the list is the match that ECMAScript reports.
\<close>

datatype regex =
    Eps
  | Sym "char \<Rightarrow> bool"
  | Bol
  | Eol
  | Seq regex regex
  | Grp nat regex
  | Rep nat "nat option" bool regex

type_synonym captures = "nat \<Rightarrow> string option"

fun rsize :: "regex \<Rightarrow> nat" where
  "rsize (Seq a b) = Suc (rsize a + rsize b)"
| "rsize (Grp n r) = Suc (rsize r)"
| "rsize (Rep mn mx g r) = Suc (rsize r)"
| "rsize _ = 0"

fun rep_min :: "regex \<Rightarrow> nat" where
  "rep_min (Rep mn mx g r) = mn"
| "rep_min _ = 0"

fun groups_of :: "regex \<Rightarrow> nat list" where
  "groups_of (Seq a b) = groups_of a @ groups_of b"
| "groups_of (Grp n r) = n # groups_of r"
| "groups_of (Rep mn mx g r) = groups_of r"
| "groups_of _ = []"

definition clear_groups :: "nat list \<Rightarrow> captures \<Rightarrow> captures" where
  \<comment> \<open>each iteration of a quantifier starts with the captures of its body undefined\<close>
  "clear_groups ns c = (\<lambda>n. if n \<in> set ns then None else c n)"

definition substring :: "string \<Rightarrow> nat \<Rightarrow> nat \<Rightarrow> string" where
  "substring s i j = take (j - i) (drop i s)"

function matches :: "regex \<Rightarrow> string \<Rightarrow> nat \<Rightarrow> captures \<Rightarrow> (nat \<times> captures) list" where
  "matches Eps s i c = [(i, c)]"
| "matches (Sym p) s i c = (if i < length s \<and> p (s ! i) then [(Suc i, c)] else [])"
| "matches Bol s i c = (if i = 0 \<or> is_line_terminator (s ! (i - 1)) then [(i, c)] else [])"
| "matches Eol s i c = (if length s \<le> i \<or> is_line_terminator (s ! i) then [(i, c)] else [])"
| "matches (Seq a b) s i c =
     concat (map (\<lambda>(j, c'). matches b s j c') (matches a s i c))"
| "matches (Grp n r) s i c =
     map (\<lambda>(j, c'). (j, c'(n := Some (substring s i j)))) (matches r s i c)"
| "matches (Rep mn mx g r) s i c =
     (let stop = (if mn = 0 then [(i, c)] else []);
          more = (if mx = Some 0 then []
                  else concat (map (\<lambda>(j, c').
                         if 0 < mn \<or> (i < j \<and> j \<le> length s)
                         then matches (Rep (mn - 1) (map_option (\<lambda>k. k - 1) mx) g r) s j c'
                         else [])
                       (matches r s i (clear_groups (groups_of r) c))))
      in if g then more @ stop else stop @ more)"
  by pat_completeness auto
termination
  by (relation "measures [\<lambda>(r, s, i, c). rsize r, \<lambda>(r, s, i, c). rep_min r,
                          \<lambda>(r, s, i, c). length s - i]") auto

text \<open>
  \<open>exec\<close> looks for the leftmost match at or after a position. \<open>replace\<close> is
  \<open>String.prototype.replace\<close> with a global expression and a replacer that receives the
  matched text and the captures: as in ECMAScript, the matches are collected first
  (\<open>all_matches\<close>; after an empty match the search resumes one code unit further, as
  \<open>AdvanceStringIndex\<close> does), and the result is then put together from the text between
  the matches and the replacements (\<open>splice\<close>).
\<close>

function exec :: "regex \<Rightarrow> string \<Rightarrow> nat \<Rightarrow> (nat \<times> nat \<times> captures) option" where
  "exec r s i =
     (if length s < i then None
      else case matches r s i (\<lambda>n. None) of
             (j, c) # rest \<Rightarrow> Some (i, j, c)
           | [] \<Rightarrow> exec r s (Suc i))"
  by pat_completeness auto
termination
  by (relation "measure (\<lambda>(r, s, i). Suc (length s) - i)") auto

definition grp :: "captures \<Rightarrow> nat \<Rightarrow> string" where
  \<comment> \<open>\<open>$n\<close> in a replacement template: a group that took no part gives the empty string\<close>
  "grp c n = (case c n of None \<Rightarrow> [] | Some x \<Rightarrow> x)"

declare matches.simps [simp del]

lemmas matches_base [simp] = matches.simps(1-6)

lemma matches_bounds:
  "(j, c') \<in> set (matches r s i c) \<Longrightarrow> i \<le> length s \<Longrightarrow> i \<le> j \<and> j \<le> length s"
proof (induction r s i c arbitrary: j c' rule: matches.induct)
  case (5 a b s i c)
  from "5.prems"(1) obtain k ck where k: "(k, ck) \<in> set (matches a s i c)"
    and j: "(j, c') \<in> set (matches b s k ck)"
    by auto
  from "5.IH"(1) [OF k "5.prems"(2)] have ik: "i \<le> k" "k \<le> length s" by auto
  from "5.IH"(2) [OF k _ j ik(2)] have "k \<le> j \<and> j \<le> length s" by simp
  with ik show ?case by simp
next
  case (6 n r s i c)
  from "6.prems"(1) obtain ck where "(j, ck) \<in> set (matches r s i c)" by auto
  from "6.IH" [OF this "6.prems"(2)] show ?case .
next
  case (7 mn mx g r s i c)
  let ?inner = "matches r s i (clear_groups (groups_of r) c)"
  from "7.prems"(1) consider (stop) "j = i"
    | (more) k ck where "mx \<noteq> Some 0" "(k, ck) \<in> set ?inner"
        "0 < mn \<or> (i < k \<and> k \<le> length s)"
        "(j, c') \<in> set (matches (Rep (mn - 1) (map_option (\<lambda>k. k - 1) mx) g r) s k ck)"
    unfolding matches.simps(7) [of mn mx g r s i c]
    by (auto simp: Let_def split: if_splits)
  then show ?case
  proof cases
    case stop
    with "7.prems"(2) show ?thesis by simp
  next
    case more
    from "7.IH"(1) [OF refl more(1) more(2) "7.prems"(2)]
    have ik: "i \<le> k" "k \<le> length s" by auto
    from "7.IH"(2) [OF refl more(1) more(2) _ more(3) more(4) ik(2)]
    have "k \<le> j \<and> j \<le> length s" by simp
    with ik show ?thesis by simp
  qed
qed (auto split: if_splits)

lemma exec_bounds:
  "exec r s k = Some (i, j, c) \<Longrightarrow> k \<le> i \<and> i \<le> j \<and> j \<le> length s"
proof (induction r s k rule: exec.induct)
  case (1 r s k)
  show ?case
  proof (cases "matches r s k (\<lambda>n. None)")
    case Nil
    with "1.prems" have le: "\<not> length s < k" and ex: "exec r s (Suc k) = Some (i, j, c)"
      by (auto split: if_splits)
    from "1.IH" [OF le Nil ex] show ?thesis by simp
  next
    case (Cons p rest)
    obtain j' c'' where p: "p = (j', c'')" by (cases p)
    with "1.prems" Cons have le: "k \<le> length s" and eq: "i = k" "j = j'" "c = c''"
      by (auto split: if_splits)
    from Cons p have "(j', c'') \<in> set (matches r s k (\<lambda>n. None))" by simp
    from matches_bounds [OF this le] eq show ?thesis by simp
  qed
qed

function all_matches :: "regex \<Rightarrow> string \<Rightarrow> nat \<Rightarrow> (nat \<times> nat \<times> captures) list" where
  "all_matches r s k =
     (case exec r s k of
        None \<Rightarrow> []
      | Some (i, j, c) \<Rightarrow>
          (i, j, c) # (if i < j then all_matches r s j
                       else if i < length s then all_matches r s (Suc i)
                       else []))"
  by pat_completeness auto
termination
proof (relation "measure (\<lambda>(r, s, k). Suc (length s) - k)", goal_cases)
  case 1
  show ?case by simp
next
  case (2 r s k x2 i y j c)
  then have "exec r s k = Some (i, j, c)" by simp
  from exec_bounds [OF this] 2 show ?case by auto
next
  case (3 r s k x2 i y j c)
  then have "exec r s k = Some (i, j, c)" by simp
  from exec_bounds [OF this] 3 show ?case by auto
qed

fun splice :: "string \<Rightarrow> nat \<Rightarrow> (nat \<times> nat \<times> captures) list \<Rightarrow>
    (string \<Rightarrow> captures \<Rightarrow> string) \<Rightarrow> string" where
  "splice s k [] f = drop k s"
| "splice s k ((i, j, c) # ms) f = substring s k i @ f (substring s i j) c @ splice s j ms f"

definition replace :: "regex \<Rightarrow> (string \<Rightarrow> captures \<Rightarrow> string) \<Rightarrow> string \<Rightarrow> string" where
  "replace r f s = splice s 0 (all_matches r s 0) f"

text \<open>The other string methods the parser calls.\<close>

definition trim :: "string \<Rightarrow> string" where
  "trim s = rev (dropWhile is_space (rev (dropWhile is_space s)))"

definition startsWith :: "string \<Rightarrow> string \<Rightarrow> bool" where
  "startsWith s p = (take (length p) s = p)"

fun str_includes :: "string \<Rightarrow> string \<Rightarrow> bool" where
  "str_includes [] p = (p = [])"
| "str_includes (x # xs) p = (startsWith (x # xs) p \<or> str_includes xs p)"

function split_acc :: "string \<Rightarrow> string \<Rightarrow> string \<Rightarrow> string list" where
  "split_acc sep acc [] = [acc]"
| "split_acc sep acc (x # xs) =
     (if sep \<noteq> [] \<and> startsWith (x # xs) sep
      then acc # split_acc sep [] (drop (length sep) (x # xs))
      else split_acc sep (acc @ [x]) xs)"
  by pat_completeness auto
termination
  by (relation "measure (\<lambda>(sep, acc, s). length s)") (auto simp: neq_Nil_conv)

definition split :: "string \<Rightarrow> string \<Rightarrow> string list" where
  \<comment> \<open>\<open>s.split(sep)\<close> for a separator that is not empty\<close>
  "split s sep = split_acc sep [] s"

fun join :: "string list \<Rightarrow> string \<Rightarrow> string" where
  "join [] sep = []"
| "join [x] sep = x"
| "join (x # y # ys) sep = x @ sep @ join (y # ys) sep"

definition toLowerCase_char :: "char \<Rightarrow> char" where
  \<comment> \<open>the letters A-Z and the upper-case letters of Latin-1 move up by 32\<close>
  "toLowerCase_char c =
     (if (65 \<le> code c \<and> code c \<le> 90) \<or> (192 \<le> code c \<and> code c \<le> 222 \<and> code c \<noteq> 215)
      then char_of (code c + 32) else c)"

definition toLowerCase :: "string \<Rightarrow> string" where
  "toLowerCase s = map toLowerCase_char s"

function digits_of :: "nat \<Rightarrow> string" where
  "digits_of n = (if n < 10 then [char_of (48 + n)] else digits_of (n div 10) @ [char_of (48 + n mod 10)])"
  by pat_completeness auto
termination
  by (relation "measure id") auto

definition half_to_string :: "nat \<Rightarrow> string" where
  \<comment> \<open>the text of the number \<open>n / 2\<close>: an integer, or an integer and a half\<close>
  "half_to_string n = (if even n then digits_of (n div 2) else digits_of (n div 2) @ ''.5'')"

text \<open>
  The numbers of the language are the double-precision floats; the parser has integers
  that are not negative, and \<open>Infinity\<close>. \<open>to_number n\<close> is the number that stands for the
  integer \<open>n\<close>: \<open>n\<close> itself below \<open>2 ^ 53\<close>, and from there on the nearest integer with
  53 significant bits, a tie going to the even one, or \<open>Infinity\<close> when that is \<open>2 ^ 1024\<close>
  or more. (For more than 20 digits the language lets an implementation read the digits
  after the 20th as zeros; the model reads them all.)
\<close>

datatype number = Finite nat | Infinity

instantiation number :: linorder
begin

fun less_eq_number :: "number \<Rightarrow> number \<Rightarrow> bool" where
  "less_eq_number (Finite m) (Finite n) = (m \<le> n)"
| "less_eq_number x Infinity = True"
| "less_eq_number Infinity (Finite n) = False"

definition less_number :: "number \<Rightarrow> number \<Rightarrow> bool" where
  "less_number x y = (x \<le> y \<and> \<not> y \<le> (x::number))"

instance
proof
  fix x y z :: number
  show "(x < y) = (x \<le> y \<and> \<not> y \<le> x)" by (simp add: less_number_def)
  show "x \<le> x" by (cases x) auto
  show "x \<le> y \<Longrightarrow> y \<le> z \<Longrightarrow> x \<le> z" by (cases x; cases y; cases z) auto
  show "x \<le> y \<Longrightarrow> y \<le> x \<Longrightarrow> x = y" by (cases x; cases y) auto
  show "x \<le> y \<or> y \<le> x" by (cases x; cases y) auto
qed

end

function bit_length :: "int \<Rightarrow> nat" where
  "bit_length n = (if n \<le> 0 then 0 else Suc (bit_length (n div 2)))"
  by pat_completeness auto
termination
  by (relation "measure nat") auto

definition to_number :: "int \<Rightarrow> number" where
  "to_number n =
     (if n < 2 ^ 53 then Finite (nat n)
      else (let e = bit_length n - 53;
                q = n div 2 ^ e;
                r = n mod 2 ^ e;
                m = (if 2 ^ e < 2 * r \<or> (2 * r = 2 ^ e \<and> odd q) then q + 1 else q)
            in if 2 ^ 1024 \<le> m * 2 ^ e then Infinity else Finite (nat (m * 2 ^ e))))"

definition parseInt :: "string \<Rightarrow> number" where
  \<comment> \<open>\<open>parseInt\<close> on a run of decimal digits: the integer they write, as a number\<close>
  "parseInt ds = to_number (foldl (\<lambda>n d. 10 * n + (int (code d) - 48)) 0 ds)"

section \<open>Notation for the expressions of the parser\<close>

definition lit :: "string \<Rightarrow> regex" where
  "lit s = foldr (\<lambda>a r. Seq (Sym (is_chr a)) r) s Eps"

definition seqs :: "regex list \<Rightarrow> regex" where
  "seqs rs = foldr Seq rs Eps"

abbreviation star :: "regex \<Rightarrow> regex" where
  "star r \<equiv> Rep 0 None True r"

abbreviation lazy_star :: "regex \<Rightarrow> regex" where
  "lazy_star r \<equiv> Rep 0 None False r"

abbreviation plus :: "regex \<Rightarrow> regex" where
  "plus r \<equiv> Rep 1 None True r"

abbreviation opt :: "regex \<Rightarrow> regex" where
  "opt r \<equiv> Rep 0 (Some 1) True r"

section \<open>The passes of the parser\<close>

subsection \<open>Code blocks and inline code\<close>

definition htmlEscapes :: "(string \<times> string) list" where
  \<open>htmlEscapes = [(''&'', ''&amp;''), (''<'', ''&lt;''), (''>'', ''&gt;''),
                  (''"'', ''&quot;''), ([CHR 0x27], ''&#39;'')]\<close>

definition escape_match :: "string \<Rightarrow> captures \<Rightarrow> string" where
  \<comment> \<open>\<open>function(match) { return htmlEscapes[match]; }\<close>\<close>
  "escape_match m c = (case map_of htmlEscapes m of Some e \<Rightarrow> e | None \<Rightarrow> ''undefined'')"

definition escapeHtml :: "string \<Rightarrow> string" where
  \<open>escapeHtml text =
     replace (Sym (\<lambda>c. c \<in> set (''&<>"'' @ [CHR 0x27]))) escape_match text\<close>

definition fence_with_language :: regex where
  \<comment> \<open>\<open>/```(\w+)?\n([\s\S]*?)\n```/g\<close>\<close>
  "fence_with_language =
     seqs [lit ''```'', opt (Grp 1 (plus (Sym is_word))), lit ''\<newline>'',
           Grp 2 (lazy_star (Sym is_any)), lit ''\<newline>```'']"

definition fence_plain :: regex where
  \<comment> \<open>\<open>/```\n([\s\S]*?)\n```/g\<close>\<close>
  "fence_plain = seqs [lit ''```\<newline>'', Grp 1 (lazy_star (Sym is_any)), lit ''\<newline>```'']"

definition code_block_with_language :: "string \<Rightarrow> captures \<Rightarrow> string" where
  \<comment> \<open>\<open>function(match, language, code)\<close>; \<open>language\<close> is undefined when its group took no part\<close>
  \<open>code_block_with_language m c =
     (let lang = (case c 1 of None \<Rightarrow> []
                  | Some language \<Rightarrow>
                      if language = [] then []
                      else '' class="language-'' @ language @ ''"'');
          escapedCode = escapeHtml (trim (grp c 2))
      in ''<pre><code'' @ lang @ ''>'' @ escapedCode @ ''</code></pre>'')\<close>

definition code_block_plain :: "string \<Rightarrow> captures \<Rightarrow> string" where
  \<comment> \<open>\<open>function(match, code)\<close>\<close>
  "code_block_plain m c =
     (let escapedCode = escapeHtml (trim (grp c 1))
      in ''<pre><code>'' @ escapedCode @ ''</code></pre>'')"

definition parseCodeBlocks :: "string \<Rightarrow> string" where
  "parseCodeBlocks text =
     (let text1 = replace fence_with_language code_block_with_language text;
          text2 = replace fence_plain code_block_plain text1
      in text2)"

definition inline_code :: regex where
  \<comment> \<open>\<open>/`([^`]+)`/g\<close>\<close>
  "inline_code = seqs [lit ''`'', Grp 1 (plus (Sym (not_chr (CHR ''`'')))), lit ''`'']"

definition parseInlineCode :: "string \<Rightarrow> string" where
  "parseInlineCode text = replace inline_code (\<lambda>m c. ''<code>'' @ grp c 1 @ ''</code>'') text"

subsection \<open>Headers and blockquotes\<close>

definition generateHeaderId :: "string \<Rightarrow> string" where
  "generateHeaderId text =
     trim (replace (plus (Sym is_space)) (\<lambda>m c. ''-'')
       (replace (Sym (\<lambda>c. \<not> (is_word c \<or> is_space c \<or> c = CHR ''-''))) (\<lambda>m c. [])
         (toLowerCase text)))"

definition header :: regex where
  \<comment> \<open>\<open>/^(#{1,6})\s+(.+)$/gm\<close>\<close>
  "header = seqs [Bol, Grp 1 (Rep 1 (Some 6) True (Sym (is_chr (CHR ''#'')))),
                  plus (Sym is_space), Grp 2 (plus (Sym is_dot)), Eol]"

definition header_html :: "string \<Rightarrow> captures \<Rightarrow> string" where
  \<comment> \<open>\<open>function(match, hashes, content)\<close>\<close>
  \<open>header_html m c =
     (let hashes = grp c 1; content = grp c 2;
          level = length hashes;
          id = generateHeaderId content
      in ''<h'' @ digits_of level @ '' id="'' @ id @ ''">'' @ trim content @
         ''</h'' @ digits_of level @ ''>'')\<close>

definition parseHeaders :: "string \<Rightarrow> string" where
  "parseHeaders text = replace header header_html text"

definition blockquote :: regex where
  \<comment> \<open>\<open>/^>\s+(.+)$/gm\<close>\<close>
  "blockquote = seqs [Bol, lit ''>'', plus (Sym is_space), Grp 1 (plus (Sym is_dot)), Eol]"

definition parseBlockquotes :: "string \<Rightarrow> string" where
  "parseBlockquotes text =
     replace blockquote (\<lambda>m c. ''<blockquote>'' @ grp c 1 @ ''</blockquote>'') text"

subsection \<open>Lists\<close>

text \<open>
  The list pass first tags every item line with its level and kind, then folds the tagged
  lines into nested lists with a stack of open lists. The lines it pushes on \<open>result\<close>
  are kept apart by what they are (a tag the pass opens, a tag it closes, an item, a line
  copied from the input) and rendered when the result is joined. The stack \<open>listStack\<close>
  is a list whose head is the top. Reading the top of an empty stack is the
  \<open>TypeError\<close> of the source.
\<close>

datatype error = TypeError

record list_frame =
  level :: number
  isOrdered :: bool

datatype out_line = Open_list bool | Close_list bool | Item string | Copied string

fun render :: "out_line \<Rightarrow> string" where
  "render (Open_list ordered) = (if ordered then ''<ol>'' else ''<ul>'')"
| "render (Close_list ordered) = (if ordered then ''</ol>'' else ''</ul>'')"
| "render (Item content) = ''<li>'' @ content @ ''</li>''"
| "render (Copied line) = line"

record wrap_state =
  result :: "out_line list"
  inList :: bool
  listStack :: "list_frame list"

definition unordered_item :: regex where
  \<comment> \<open>\<open>/^(\s*)-\s+(.+)$/gm\<close>\<close>
  "unordered_item = seqs [Bol, Grp 1 (star (Sym is_space)), lit ''-'', plus (Sym is_space),
                          Grp 2 (plus (Sym is_dot)), Eol]"

definition ordered_item :: regex where
  \<comment> \<open>\<open>/^(\s*)\d+\.\s+(.+)$/gm\<close>\<close>
  "ordered_item = seqs [Bol, Grp 1 (star (Sym is_space)), plus (Sym is_digit), lit ''.'',
                        plus (Sym is_space), Grp 2 (plus (Sym is_dot)), Eol]"

definition tagged_item :: regex where
  \<comment> \<open>\<open>/<li data-level="(\d+)"(?: data-ordered="true")?>(.*)<\/li>/\<close>\<close>
  \<open>tagged_item = seqs [lit ''<li data-level="'', Grp 1 (plus (Sym is_digit)), lit ''"'',
                        opt (lit '' data-ordered="true"''), lit ''>'',
                        Grp 2 (star (Sym is_dot)), lit ''</li>'']\<close>

definition close_all :: "list_frame list \<Rightarrow> out_line list" where
  \<comment> \<open>\<open>while (listStack.length > 0) { pop; push the closing tag }\<close>\<close>
  "close_all stack = map (\<lambda>closingList. Close_list (isOrdered closingList)) stack"

fun close_nested :: "number \<Rightarrow> list_frame list \<Rightarrow> out_line list \<times> list_frame list" where
  \<comment> \<open>\<open>while (listStack.length > 0 && top.level >= level) { pop; push the closing tag }\<close>\<close>
  "close_nested lv [] = ([], [])"
| "close_nested lv (closingList # stack) =
     (if lv \<le> level closingList
      then (let (closed, rest) = close_nested lv stack
            in (Close_list (isOrdered closingList) # closed, rest))
      else ([], closingList # stack))"

definition listMatch_of :: "string \<Rightarrow> (number \<times> bool \<times> string) option" where
  \<comment> \<open>\<open>line.match(...)\<close> and, on a match, the level, the kind and the content read from it\<close>
  \<open>listMatch_of line =
     (case exec tagged_item line 0 of
        None \<Rightarrow> None
      | Some (i, j, listMatch) \<Rightarrow>
          Some (parseInt (grp listMatch 1),
                str_includes line ''data-ordered="true"'',
                grp listMatch 2))\<close>

definition wrap_item :: "wrap_state \<Rightarrow> number \<Rightarrow> bool \<Rightarrow> string \<Rightarrow> error + wrap_state" where
  \<comment> \<open>the branch \<open>if (listMatch)\<close> of the loop body\<close>
  "wrap_item st lv ordered content =
     (if \<not> inList st
      then Inr (st\<lparr>inList := True,
                   listStack := [\<lparr>level = lv, isOrdered = ordered\<rparr>],
                   result := result st @ [Open_list ordered, Item content]\<rparr>)
      else (case listStack st of
              [] \<Rightarrow> Inl TypeError
            | currentList # below \<Rightarrow>
                if lv = level currentList \<and> ordered = isOrdered currentList
                then Inr (st\<lparr>result := result st @ [Item content]\<rparr>)
                else if level currentList < lv
                then Inr (st\<lparr>listStack := \<lparr>level = lv, isOrdered = ordered\<rparr> # listStack st,
                             result := result st @ [Open_list ordered, Item content]\<rparr>)
                else (let (closed, rest) = close_nested lv (listStack st)
                      in if rest = []
                         then Inr (st\<lparr>listStack := [\<lparr>level = lv, isOrdered = ordered\<rparr>],
                                      result := result st @ closed @
                                                [Open_list ordered, Item content]\<rparr>)
                         else Inr (st\<lparr>listStack := rest,
                                      result := result st @ closed @ [Item content]\<rparr>))))"

definition wrap_other :: "wrap_state \<Rightarrow> string \<Rightarrow> wrap_state" where
  \<comment> \<open>the \<open>else\<close> branch: a line that is not a tagged item\<close>
  "wrap_other st line =
     (if inList st
      then st\<lparr>inList := False, listStack := [],
              result := result st @ close_all (listStack st) @ [Copied line]\<rparr>
      else st\<lparr>result := result st @ [Copied line]\<rparr>)"

definition wrap_line :: "wrap_state \<Rightarrow> string \<Rightarrow> error + wrap_state" where
  "wrap_line st line =
     (case listMatch_of line of
        Some (lv, ordered, content) \<Rightarrow> wrap_item st lv ordered content
      | None \<Rightarrow> Inr (wrap_other st line))"

fun wrap_loop :: "wrap_state \<Rightarrow> string list \<Rightarrow> error + wrap_state" where
  "wrap_loop st [] = Inr st"
| "wrap_loop st (line # lines) =
     (case wrap_line st line of Inl e \<Rightarrow> Inl e | Inr st' \<Rightarrow> wrap_loop st' lines)"

definition wrap_lines :: "string list \<Rightarrow> error + out_line list" where
  \<comment> \<open>the loop, then \<open>Close any remaining open lists\<close>\<close>
  "wrap_lines lines =
     (case wrap_loop \<lparr>result = [], inList = False, listStack = []\<rparr> lines of
        Inl e \<Rightarrow> Inl e
      | Inr st \<Rightarrow> Inr (result st @ close_all (listStack st)))"

definition wrapListItems :: "string \<Rightarrow> error + string" where
  "wrapListItems text =
     (case wrap_lines (split text ''\<newline>'') of
        Inl e \<Rightarrow> Inl e
      | Inr res \<Rightarrow> Inr (join (map render res) ''\<newline>''))"

definition tag_unordered :: "string \<Rightarrow> captures \<Rightarrow> string" where
  \<comment> \<open>\<open>function(match, indent, content)\<close> with \<open>level = indent.length / 2\<close>\<close>
  \<open>tag_unordered m c =
     (let indent = grp c 1; content = grp c 2
      in ''<li data-level="'' @ half_to_string (length indent) @ ''">'' @ content @ ''</li>'')\<close>

definition tag_ordered :: "string \<Rightarrow> captures \<Rightarrow> string" where
  \<open>tag_ordered m c =
     (let indent = grp c 1; content = grp c 2
      in ''<li data-level="'' @ half_to_string (length indent) @ ''" data-ordered="true">'' @
         content @ ''</li>'')\<close>

definition parseLists :: "string \<Rightarrow> error + string" where
  "parseLists text =
     (let text1 = replace unordered_item tag_unordered text;
          text2 = replace ordered_item tag_ordered text1
      in wrapListItems text2)"

subsection \<open>Links, images and emphasis\<close>

definition link_with_title :: regex where
  \<comment> \<open>\<open>/\[([^\]]+)\]\(([^)]+)\s+"([^"]+)"\)/g\<close>\<close>
  \<open>link_with_title =
     seqs [lit ''['', Grp 1 (plus (Sym (not_chr (CHR '']'')))), lit '']('',
           Grp 2 (plus (Sym (not_chr (CHR '')'')))), plus (Sym is_space), lit ''"'',
           Grp 3 (plus (Sym (not_chr (CHR ''"'')))), lit ''")'']\<close>

definition link_plain :: regex where
  \<comment> \<open>\<open>/\[([^\]]+)\]\(([^)]+)\)/g\<close>\<close>
  "link_plain =
     seqs [lit ''['', Grp 1 (plus (Sym (not_chr (CHR '']'')))), lit '']('',
           Grp 2 (plus (Sym (not_chr (CHR '')'')))), lit '')'']"

definition auto_link :: regex where
  \<comment> \<open>\<open>/(https?:\/\/[^\s<]+)/g\<close>\<close>
  "auto_link =
     Grp 1 (seqs [lit ''http'', opt (lit ''s''), lit ''://'',
                  plus (Sym (\<lambda>c. \<not> (is_space c \<or> c = CHR ''<'')))])"

definition parseLinks :: "string \<Rightarrow> string" where
  \<open>parseLinks text =
     (let text1 = replace link_with_title
            (\<lambda>m c. ''<a href="'' @ grp c 2 @ ''" title="'' @ grp c 3 @ ''">'' @ grp c 1 @ ''</a>'')
            text;
          text2 = replace link_plain
            (\<lambda>m c. ''<a href="'' @ grp c 2 @ ''">'' @ grp c 1 @ ''</a>'') text1;
          text3 = replace auto_link
            (\<lambda>m c. ''<a href="'' @ grp c 1 @ ''">'' @ grp c 1 @ ''</a>'') text2
      in text3)\<close>

definition image_with_title :: regex where
  \<comment> \<open>\<open>/!\[([^\]]*)\]\(([^)]+)\s+"([^"]+)"\)/g\<close>\<close>
  \<open>image_with_title =
     seqs [lit ''!['', Grp 1 (star (Sym (not_chr (CHR '']'')))), lit '']('',
           Grp 2 (plus (Sym (not_chr (CHR '')'')))), plus (Sym is_space), lit ''"'',
           Grp 3 (plus (Sym (not_chr (CHR ''"'')))), lit ''")'']\<close>

definition image_plain :: regex where
  \<comment> \<open>\<open>/!\[([^\]]*)\]\(([^)]+)\)/g\<close>\<close>
  "image_plain =
     seqs [lit ''!['', Grp 1 (star (Sym (not_chr (CHR '']'')))), lit '']('',
           Grp 2 (plus (Sym (not_chr (CHR '')'')))), lit '')'']"

definition parseImages :: "string \<Rightarrow> string" where
  \<open>parseImages text =
     (let text1 = replace image_with_title
            (\<lambda>m c. ''<img src="'' @ grp c 2 @ ''" alt="'' @ grp c 1 @ ''" title="'' @ grp c 3 @
                    ''">'') text;
          text2 = replace image_plain
            (\<lambda>m c. ''<img src="'' @ grp c 2 @ ''" alt="'' @ grp c 1 @ ''">'') text1
      in text2)\<close>

definition delimited :: "string \<Rightarrow> char \<Rightarrow> regex" where
  \<comment> \<open>\<open>/D([^x]+)D/g\<close> for a delimiter \<open>D\<close> made of the character \<open>x\<close>\<close>
  "delimited d x = seqs [lit d, Grp 1 (plus (Sym (not_chr x))), lit d]"

definition parseEmphasis :: "string \<Rightarrow> string" where
  "parseEmphasis text =
     (let text1 = replace (delimited ''**'' (CHR ''*''))
                    (\<lambda>m c. ''<strong>'' @ grp c 1 @ ''</strong>'') text;
          text2 = replace (delimited ''__'' (CHR ''_''))
                    (\<lambda>m c. ''<strong>'' @ grp c 1 @ ''</strong>'') text1;
          text3 = replace (delimited ''*'' (CHR ''*''))
                    (\<lambda>m c. ''<em>'' @ grp c 1 @ ''</em>'') text2;
          text4 = replace (delimited ''_'' (CHR ''_''))
                    (\<lambda>m c. ''<em>'' @ grp c 1 @ ''</em>'') text3;
          text5 = replace (delimited ''~~'' (CHR ''~''))
                    (\<lambda>m c. ''<del>'' @ grp c 1 @ ''</del>'') text4
      in text5)"

subsection \<open>Line breaks and paragraphs\<close>

definition hard_break :: regex where
  \<comment> \<open>\<open>/  \n/g\<close>: two spaces at the end of a line\<close>
  "hard_break = lit ''  \<newline>''"

definition blank_lines :: regex where
  \<comment> \<open>\<open>/\n{2,}/g\<close>\<close>
  "blank_lines = Rep 2 None True (Sym (is_chr (CHR ''\<newline>'')))"

definition parseLineBreaks :: "string \<Rightarrow> string" where
  "parseLineBreaks text =
     (let text1 = replace hard_break (\<lambda>m c. ''<br>\<newline>'') text;
          text2 = replace blank_lines (\<lambda>m c. ''\<newline>\<newline>'') text1
      in text2)"

definition blockTags :: "string list" where
  "blockTags = [''<h1'', ''<h2'', ''<h3'', ''<h4'', ''<h5'', ''<h6'',
                ''<p>'', ''<div'', ''<blockquote'', ''<pre'', ''<ul'', ''<ol'', ''<li'',
                ''<table'', ''<form'', ''<fieldset'', ''<address'']"

definition isBlockElement :: "string \<Rightarrow> bool" where
  "isBlockElement text = list_ex (\<lambda>tag. startsWith text tag) blockTags"

fun paragraphs_of :: "string list \<Rightarrow> string list" where
  \<comment> \<open>the loop of \<open>parseParagraphs\<close> over the blocks\<close>
  "paragraphs_of [] = []"
| "paragraphs_of (line # lines) =
     (let line' = trim line
      in if line' \<noteq> []
         then (if isBlockElement line' then line' else ''<p>'' @ line' @ ''</p>'')
              # paragraphs_of lines
         else paragraphs_of lines)"

definition parseParagraphs :: "string \<Rightarrow> string" where
  "parseParagraphs text =
     join (paragraphs_of (split text ''\<newline>\<newline>'')) ''\<newline>\<newline>''"

subsection \<open>The entry point\<close>

text \<open>
  The argument of \<open>parseMarkdown\<close> is any JavaScript value. The guard
  \<open>!markdown || typeof markdown !== 'string'\<close> lets only a string that is not empty through.
\<close>

datatype js_value =
    JUndefined
  | JNull
  | JBoolean bool
  | JNumber int
  | JObject
  | JString string

fun falsy :: "js_value \<Rightarrow> bool" where
  "falsy JUndefined = True"
| "falsy JNull = True"
| "falsy (JBoolean b) = (\<not> b)"
| "falsy (JNumber n) = (n = 0)"
| "falsy JObject = False"
| "falsy (JString s) = (s = [])"

fun is_string :: "js_value \<Rightarrow> bool" where
  "is_string (JString s) = True"
| "is_string _ = False"

definition pipeline :: "string \<Rightarrow> error + string" where
  "pipeline markdown =
     (let html = markdown;
          html = parseCodeBlocks html;
          html = parseInlineCode html;
          html = parseHeaders html;
          html = parseBlockquotes html
      in case parseLists html of
           Inl e \<Rightarrow> Inl e
         | Inr html \<Rightarrow>
             (let html = parseLinks html;
                  html = parseImages html;
                  html = parseEmphasis html;
                  html = parseLineBreaks html;
                  html = parseParagraphs html
              in Inr (trim html)))"

definition parseMarkdown :: "js_value \<Rightarrow> error + string" where
  "parseMarkdown v =
     (if falsy v \<or> \<not> is_string v then Inr []
      else case v of JString markdown \<Rightarrow> pipeline markdown | _ \<Rightarrow> Inr [])"

section \<open>Balance of the list tags\<close>

subsection \<open>What the expressions capture\<close>

lemma exec_Some_match:
  "exec r s k = Some (i, j, c) \<Longrightarrow> (j, c) \<in> set (matches r s i (\<lambda>n. None))"
proof (induction r s k rule: exec.induct)
  case (1 r s k)
  show ?case
  proof (cases "matches r s k (\<lambda>n. None)")
    case Nil
    with "1.prems" have "\<not> length s < k" "exec r s (Suc k) = Some (i, j, c)"
      by (auto simp: exec.simps [of r s k] split: if_splits)
    with "1.IH" Nil show ?thesis by simp
  next
    case (Cons p rest)
    with "1.prems" show ?thesis
      by (cases p) (auto simp: exec.simps [of r s k] split: if_splits)
  qed
qed

definition captured_from :: "string \<Rightarrow> captures \<Rightarrow> bool" where
  "captured_from s c = (\<forall>n x. c n = Some x \<longrightarrow> set x \<subseteq> set s)"

lemma captured_from_substring:
  "captured_from s c \<Longrightarrow> captured_from s (c(n := Some (substring s i j)))"
  by (auto simp: captured_from_def substring_def dest: in_set_takeD in_set_dropD)

lemma captured_from_clear: "captured_from s c \<Longrightarrow> captured_from s (clear_groups ns c)"
  by (simp add: captured_from_def clear_groups_def)

lemma matches_captured_from:
  "(j, c') \<in> set (matches r s i c) \<Longrightarrow> captured_from s c \<Longrightarrow> captured_from s c'"
proof (induction r s i c arbitrary: j c' rule: matches.induct)
  case (5 a b s i c)
  from "5.prems"(1) obtain k ck where k: "(k, ck) \<in> set (matches a s i c)"
    and j: "(j, c') \<in> set (matches b s k ck)"
    by auto
  from "5.IH"(1) [OF k "5.prems"(2)] have "captured_from s ck" .
  from "5.IH"(2) [OF k _ j this] show ?case by simp
next
  case (6 n r s i c)
  from "6.prems"(1) obtain ck where ck: "(j, ck) \<in> set (matches r s i c)"
    and c': "c' = ck(n := Some (substring s i j))"
    by auto
  from "6.IH" [OF ck "6.prems"(2)] have "captured_from s ck" .
  then show ?case unfolding c' by (rule captured_from_substring)
next
  case (7 mn mx g r s i c)
  let ?inner = "matches r s i (clear_groups (groups_of r) c)"
  from "7.prems"(1) consider (stop) "c' = c"
    | (more) k ck where "mx \<noteq> Some 0" "(k, ck) \<in> set ?inner"
        "0 < mn \<or> (i < k \<and> k \<le> length s)"
        "(j, c') \<in> set (matches (Rep (mn - 1) (map_option (\<lambda>k. k - 1) mx) g r) s k ck)"
    unfolding matches.simps(7) [of mn mx g r s i c]
    by (auto simp: Let_def split: if_splits)
  then show ?case
  proof cases
    case stop
    with "7.prems"(2) show ?thesis by simp
  next
    case more
    from "7.IH"(1) [OF refl more(1) more(2) captured_from_clear [OF "7.prems"(2)]]
    have "captured_from s ck" .
    from "7.IH"(2) [OF refl more(1) more(2) _ more(3) more(4) this] show ?thesis by simp
  qed
qed (auto split: if_splits)

lemma listMatch_of_content:
  assumes "listMatch_of line = Some (lv, ordered, content)"
  shows "set content \<subseteq> set line"
proof -
  from assms obtain i j listMatch where ex: "exec tagged_item line 0 = Some (i, j, listMatch)"
    and content: "content = grp listMatch 2"
    by (auto simp: listMatch_of_def split: option.splits)
  have "captured_from line (\<lambda>n. None)" by (simp add: captured_from_def)
  from matches_captured_from [OF exec_Some_match [OF ex] this] content show ?thesis
    by (auto simp: captured_from_def grp_def split: option.splits)
qed

subsection \<open>Lines\<close>

lemma split_acc_not_Nil: "split_acc sep acc s \<noteq> []"
  by (induction sep acc s rule: split_acc.induct) auto

lemma join_Cons: "ys \<noteq> [] \<Longrightarrow> join (x # ys) sep = x @ sep @ join ys sep"
  by (cases ys) auto

lemma split_acc_line:
  "c \<notin> set acc \<Longrightarrow> b \<in> set (split_acc [c] acc s) \<Longrightarrow> c \<notin> set b"
proof (induction "[c]" acc s arbitrary: b rule: split_acc.induct)
  case (1 acc)
  then show ?case by simp
next
  case (2 acc x xs)
  show ?case
  proof (cases "x = c")
    case True
    with "2.prems" consider "b = acc" | "b \<in> set (split_acc [c] [] xs)"
      by (auto simp: startsWith_def)
    then show ?thesis
    proof cases
      case 1
      with "2.prems" show ?thesis by simp
    next
      case 2
      from True have "[c] \<noteq> [] \<and> startsWith (x # xs) [c]" by (simp add: startsWith_def)
      from "2.hyps"(1) [OF this, of b] 2 show ?thesis by simp
    qed
  next
    case False
    then have no: "\<not> ([c] \<noteq> [] \<and> startsWith (x # xs) [c])" by (simp add: startsWith_def)
    with "2.prems" have "b \<in> set (split_acc [c] (acc @ [x]) xs)" by simp
    moreover from False "2.prems" have "c \<notin> set (acc @ [x])" by simp
    ultimately show ?thesis using "2.hyps"(2) [OF no] by blast
  qed
qed

lemma split_line: "b \<in> set (split s [c]) \<Longrightarrow> c \<notin> set b"
  using split_acc_line [of c "[]" b s] by (simp add: split_def)

lemma split_acc_append_line:
  "c \<notin> set l \<Longrightarrow> split_acc [c] acc (l @ rest) = split_acc [c] (acc @ l) rest"
proof (induction l arbitrary: acc)
  case Nil
  show ?case by simp
next
  case (Cons x l)
  then have "x \<noteq> c" "c \<notin> set l" by auto
  with Cons.IH [of "acc @ [x]"] show ?case by (simp add: startsWith_def)
qed

lemma split_join_lines:
  "ls \<noteq> [] \<Longrightarrow> \<forall>l\<in>set ls. c \<notin> set l \<Longrightarrow> split (join ls [c]) [c] = ls"
proof (induction ls)
  case Nil
  then show ?case by simp
next
  case (Cons l ls)
  then have l: "c \<notin> set l" by simp
  show ?case
  proof (cases "ls = []")
    case True
    with split_acc_append_line [OF l, of "[]" "[]"] show ?thesis by (simp add: split_def)
  next
    case False
    with Cons have IH: "split_acc [c] [] (join ls [c]) = ls" by (simp add: split_def)
    from False have "join (l # ls) [c] = l @ c # join ls [c]"
      by (simp add: join_Cons)
    with split_acc_append_line [OF l, of "[]" "c # join ls [c]"] IH show ?thesis
      by (simp add: split_def startsWith_def)
  qed
qed

subsection \<open>The lists that are open\<close>

text \<open>
  The lines that the list pass pushed are read with the lists that are open, innermost
  first: an opening tag pushes its kind, a closing tag must close the innermost open list
  and be of its kind, an item must be inside a list and a copied line outside every list.
  The result is the lists left open, or \<open>None\<close>.
\<close>

fun opens_after :: "bool list \<Rightarrow> out_line list \<Rightarrow> bool list option" where
  "opens_after opn [] = Some opn"
| "opens_after opn (Open_list k # ls) = opens_after (k # opn) ls"
| "opens_after opn (Close_list k # ls) =
     (case opn of [] \<Rightarrow> None | k' # opn' \<Rightarrow> if k' = k then opens_after opn' ls else None)"
| "opens_after opn (Item c # ls) = (if opn = [] then None else opens_after opn ls)"
| "opens_after opn (Copied l # ls) = (if opn = [] then opens_after opn ls else None)"

definition wrap_inv :: "wrap_state \<Rightarrow> bool" where
  \<comment> \<open>the lists open in \<open>result\<close> are the frames of the stack, and \<open>inList\<close> says that
      there is one\<close>
  "wrap_inv st = (opens_after [] (result st) = Some (map isOrdered (listStack st))
                  \<and> inList st = (listStack st \<noteq> []))"

lemma opens_after_append:
  "opens_after opn (xs @ ys) =
     (case opens_after opn xs of None \<Rightarrow> None | Some opn' \<Rightarrow> opens_after opn' ys)"
  by (induction opn xs rule: opens_after.induct) (auto split: list.splits)

lemma opens_after_close_all:
  "opens_after (map isOrdered stack @ opn) (close_all stack) = Some opn"
  by (induction stack) (auto simp: close_all_def)

lemma close_nested_opens:
  "close_nested lv stack = (closing, rest) \<Longrightarrow>
     opens_after (map isOrdered stack @ opn) closing = Some (map isOrdered rest @ opn)"
  by (induction stack arbitrary: closing rest) (auto split: if_splits prod.splits)

lemma wrap_item_inv:
  assumes "wrap_inv st"
  shows "\<exists>st'. wrap_item st lv ordered content = Inr st' \<and> wrap_inv st'"
proof (cases "inList st")
  case False
  with assms show ?thesis
    by (simp add: wrap_item_def wrap_inv_def opens_after_append)
next
  case True
  with assms obtain currentList below where stack: "listStack st = currentList # below"
    by (auto simp: wrap_inv_def neq_Nil_conv)
  from assms have res: "opens_after [] (result st) = Some (map isOrdered (listStack st))"
    by (simp add: wrap_inv_def)
  consider (same) "lv = level currentList \<and> ordered = isOrdered currentList"
    | (deeper) "\<not> (lv = level currentList \<and> ordered = isOrdered currentList)"
        "level currentList < lv"
    | (close) "\<not> (lv = level currentList \<and> ordered = isOrdered currentList)"
        "\<not> level currentList < lv"
    by blast
  then show ?thesis
  proof cases
    case same
    with True stack res show ?thesis
      by (simp add: wrap_item_def wrap_inv_def opens_after_append)
  next
    case deeper
    with True stack res show ?thesis
      by (simp add: wrap_item_def wrap_inv_def opens_after_append)
  next
    case close
    obtain closing rest where cn: "close_nested lv (listStack st) = (closing, rest)"
      by (cases "close_nested lv (listStack st)")
    from close_nested_opens [OF cn, of "[]"] res
    have after: "opens_after [] (result st @ closing) = Some (map isOrdered rest)"
      by (simp add: opens_after_append)
    show ?thesis
    proof (cases "rest = []")
      case empty: True
      have "wrap_item st lv ordered content =
              Inr (st\<lparr>listStack := [\<lparr>level = lv, isOrdered = ordered\<rparr>],
                      result := result st @ closing @ [Open_list ordered, Item content]\<rparr>)"
        using True stack close cn empty
        by (auto simp: wrap_item_def simp del: close_nested.simps)
      moreover have "wrap_inv (st\<lparr>listStack := [\<lparr>level = lv, isOrdered = ordered\<rparr>],
                      result := result st @ closing @ [Open_list ordered, Item content]\<rparr>)"
        using after empty True
        by (simp add: wrap_inv_def opens_after_append [of _ "result st @ closing", simplified])
      ultimately show ?thesis by blast
    next
      case nonempty: False
      have "wrap_item st lv ordered content =
              Inr (st\<lparr>listStack := rest, result := result st @ closing @ [Item content]\<rparr>)"
        using True stack close cn nonempty
        by (auto simp: wrap_item_def simp del: close_nested.simps)
      moreover have "wrap_inv (st\<lparr>listStack := rest,
                      result := result st @ closing @ [Item content]\<rparr>)"
        using after nonempty True
        by (simp add: wrap_inv_def opens_after_append [of _ "result st @ closing", simplified])
      ultimately show ?thesis by blast
    qed
  qed
qed

lemma wrap_other_inv: "wrap_inv st \<Longrightarrow> wrap_inv (wrap_other st line)"
  using opens_after_close_all [of "listStack st" "[]"]
  by (auto simp: wrap_other_def wrap_inv_def opens_after_append)

lemma wrap_line_inv:
  "wrap_inv st \<Longrightarrow> \<exists>st'. wrap_line st line = Inr st' \<and> wrap_inv st'"
  using wrap_item_inv wrap_other_inv
  by (auto simp: wrap_line_def split: option.splits)

lemma wrap_loop_inv:
  "wrap_inv st \<Longrightarrow> \<exists>st'. wrap_loop st lines = Inr st' \<and> wrap_inv st'"
proof (induction lines arbitrary: st)
  case Nil
  then show ?case by simp
next
  case (Cons line lines)
  from wrap_line_inv [OF Cons.prems] obtain st1 where
    "wrap_line st line = Inr st1" "wrap_inv st1" by blast
  with Cons.IH [of st1] show ?case by simp
qed

lemma wrap_lines_balanced:
  "\<exists>res. wrap_lines lines = Inr res \<and> opens_after [] res = Some []"
proof -
  have "wrap_inv \<lparr>result = [], inList = False, listStack = []\<rparr>"
    by (simp add: wrap_inv_def)
  from wrap_loop_inv [OF this] obtain st where
    st: "wrap_loop \<lparr>result = [], inList = False, listStack = []\<rparr> lines = Inr st" "wrap_inv st"
    by blast
  from st(2) opens_after_close_all [of "listStack st" "[]"]
  have "opens_after [] (result st @ close_all (listStack st)) = Some []"
    by (simp add: wrap_inv_def opens_after_append)
  with st(1) show ?thesis by (simp add: wrap_lines_def)
qed

subsection \<open>The text that is returned\<close>

text \<open>
  The same reading on the text that the pass returns. \<open>well_nested opn copies ls\<close> reads
  the lines \<open>ls\<close> of the output with the lists \<open>opn\<close> open (innermost first) and the lines
  \<open>copies\<close> still to come from the input: a line is the next line copied from the input,
  outside every list; or \<open><ul>\<close> or \<open><ol>\<close>, which opens a list; or \<open></ul>\<close> or \<open></ol>\<close>,
  which closes the innermost open list and is of its kind; or an item \<open><li>...</li>\<close> inside
  a list. At the end no list is open and no copy is left.
\<close>

definition is_item_line :: "string \<Rightarrow> bool" where
  "is_item_line l = (9 \<le> length l \<and> startsWith l ''<li>'' \<and> drop (length l - 5) l = ''</li>'')"

fun well_nested :: "bool list \<Rightarrow> string list \<Rightarrow> string list \<Rightarrow> bool" where
  "well_nested opn copies [] = (opn = [] \<and> copies = [])"
| "well_nested opn copies (l # ls) =
     ((case copies of
         [] \<Rightarrow> False
       | c # cs \<Rightarrow> if opn = [] \<and> l = c then well_nested [] cs ls else False)
      \<or> (if l = ''<ul>'' then well_nested (False # opn) copies ls
          else if l = ''<ol>'' then well_nested (True # opn) copies ls
          else if l = ''</ul>''
          then (case opn of [] \<Rightarrow> False | k # opn' \<Rightarrow> if k then False else well_nested opn' copies ls)
          else if l = ''</ol>''
          then (case opn of [] \<Rightarrow> False | k # opn' \<Rightarrow> if k then well_nested opn' copies ls else False)
          else if opn \<noteq> [] \<and> is_item_line l then well_nested opn copies ls else False))"

fun copied :: "out_line list \<Rightarrow> string list" where
  "copied [] = []"
| "copied (Copied l # ls) = l # copied ls"
| "copied (t # ls) = copied ls"

fun from_line :: "string \<Rightarrow> out_line \<Rightarrow> bool" where
  "from_line line (Item c) = (set c \<subseteq> set line)"
| "from_line line (Copied l) = (l = line)"
| "from_line line t = True"

lemma copied_append: "copied (xs @ ys) = copied xs @ copied ys"
  by (induction xs rule: copied.induct) auto

lemma close_all_closes:
  "copied (close_all stack) = [] \<and> (\<forall>t\<in>set (close_all stack). from_line line t)"
  by (induction stack) (auto simp: close_all_def)

lemma close_nested_closes:
  "close_nested lv stack = (closing, rest) \<Longrightarrow>
     copied closing = [] \<and> (\<forall>t\<in>set closing. from_line line t)"
  by (induction stack arbitrary: closing rest) (auto split: if_splits prod.splits)

lemma is_item_line_render: "is_item_line (render (Item c))"
  by (simp add: is_item_line_def startsWith_def)

lemma well_nested_render:
  "opens_after opn ls = Some [] \<Longrightarrow> well_nested opn (copied ls) (map render ls)"
proof (induction opn ls rule: opens_after.induct)
  case (1 opn)
  then show ?case by simp
next
  case (2 opn k ls)
  then show ?case by (cases k) (auto split: list.splits)
next
  case (3 opn k ls)
  then show ?case by (cases opn; cases k) (auto split: if_splits list.splits)
next
  case (4 opn c ls)
  then show ?case using is_item_line_render [of c] by (auto split: if_splits list.splits)
next
  case (5 opn l ls)
  then show ?case by (auto split: if_splits list.splits)
qed

lemma wrap_item_result:
  assumes "wrap_item st lv ordered content = Inr st'" and "set content \<subseteq> set line"
  shows "\<exists>new. result st' = result st @ new \<and> new \<noteq> [] \<and> copied new = []
               \<and> (\<forall>t\<in>set new. from_line line t)"
proof (cases "inList st")
  case False
  with assms show ?thesis by (auto simp: wrap_item_def)
next
  case True
  with assms(1) obtain currentList below where stack: "listStack st = currentList # below"
    by (cases "listStack st") (auto simp: wrap_item_def)
  obtain closing rest where cn: "close_nested lv (listStack st) = (closing, rest)"
    by (cases "close_nested lv (listStack st)")
  note closes = close_nested_closes [OF cn, of line]
  consider (same) "lv = level currentList \<and> ordered = isOrdered currentList"
    | (deeper) "\<not> (lv = level currentList \<and> ordered = isOrdered currentList)"
        "level currentList < lv"
    | (close) "\<not> (lv = level currentList \<and> ordered = isOrdered currentList)"
        "\<not> level currentList < lv"
    by blast
  then show ?thesis
  proof cases
    case same
    with True stack assms show ?thesis by (auto simp: wrap_item_def)
  next
    case deeper
    with True stack assms show ?thesis by (auto simp: wrap_item_def)
  next
    case close
    show ?thesis
    proof (cases "rest = []")
      case empty: True
      have "result st' = result st @ (closing @ [Open_list ordered, Item content])"
        using True stack close cn empty assms(1)
        by (auto simp: wrap_item_def simp del: close_nested.simps)
      with closes assms(2) show ?thesis by (auto simp: copied_append)
    next
      case nonempty: False
      have "result st' = result st @ (closing @ [Item content])"
        using True stack close cn nonempty assms(1)
        by (auto simp: wrap_item_def simp del: close_nested.simps)
      with closes assms(2) show ?thesis by (auto simp: copied_append)
    qed
  qed
qed

lemma wrap_line_result:
  assumes "wrap_line st line = Inr st'"
  shows "\<exists>new. result st' = result st @ new \<and> new \<noteq> []
               \<and> copied new = (if listMatch_of line = None then [line] else [])
               \<and> (\<forall>t\<in>set new. from_line line t)"
proof (cases "listMatch_of line")
  case None
  with assms have st': "st' = wrap_other st line" by (simp add: wrap_line_def)
  show ?thesis
  proof (cases "inList st")
    case True
    with st' have "result st' = result st @ (close_all (listStack st) @ [Copied line])"
      by (simp add: wrap_other_def)
    with None close_all_closes [of "listStack st" line] show ?thesis
      by (auto simp: copied_append)
  next
    case False
    with st' have "result st' = result st @ [Copied line]" by (simp add: wrap_other_def)
    with None show ?thesis by auto
  qed
next
  case (Some m)
  obtain lv ordered content where m: "m = (lv, ordered, content)" by (cases m)
  with Some assms have "wrap_item st lv ordered content = Inr st'" by (simp add: wrap_line_def)
  from wrap_item_result [OF this listMatch_of_content] Some m show ?thesis by auto
qed

lemma wrap_loop_result:
  "wrap_loop st lines = Inr st' \<Longrightarrow>
     \<exists>new. result st' = result st @ new \<and> (lines = [] \<or> new \<noteq> [])
          \<and> copied new = filter (\<lambda>line. listMatch_of line = None) lines
          \<and> (\<forall>t\<in>set new. \<exists>line\<in>set lines. from_line line t)"
proof (induction lines arbitrary: st)
  case Nil
  then show ?case by simp
next
  case (Cons line lines)
  from Cons.prems obtain st1 where 1: "wrap_line st line = Inr st1"
    and 2: "wrap_loop st1 lines = Inr st'"
    by (auto split: sum.splits)
  from wrap_line_result [OF 1] obtain new1 where new1: "result st1 = result st @ new1"
    "new1 \<noteq> []" "copied new1 = (if listMatch_of line = None then [line] else [])"
    "\<forall>t\<in>set new1. from_line line t"
    by blast
  from Cons.IH [OF 2] obtain new2 where new2: "result st' = result st1 @ new2"
    "copied new2 = filter (\<lambda>line. listMatch_of line = None) lines"
    "\<forall>t\<in>set new2. \<exists>line\<in>set lines. from_line line t"
    by blast
  from new1 new2 have "result st' = result st @ (new1 @ new2)" "new1 @ new2 \<noteq> []"
    "copied (new1 @ new2) = filter (\<lambda>line. listMatch_of line = None) (line # lines)"
    "\<forall>t\<in>set (new1 @ new2). \<exists>l\<in>set (line # lines). from_line l t"
    by (auto simp: copied_append)
  then show ?case by blast
qed

lemma wrap_lines_result:
  assumes "wrap_lines lines = Inr res" and "lines \<noteq> []"
  shows "res \<noteq> []" and "copied res = filter (\<lambda>line. listMatch_of line = None) lines"
    and "\<forall>t\<in>set res. \<exists>line\<in>set lines. from_line line t"
proof -
  from assms(1) obtain st where
    loop: "wrap_loop \<lparr>result = [], inList = False, listStack = []\<rparr> lines = Inr st"
    and res: "res = result st @ close_all (listStack st)"
    by (auto simp: wrap_lines_def split: sum.splits)
  from wrap_loop_result [OF loop] assms(2) obtain new where new: "result st = new" "new \<noteq> []"
    "copied new = filter (\<lambda>line. listMatch_of line = None) lines"
    "\<forall>t\<in>set new. \<exists>line\<in>set lines. from_line line t"
    by auto
  from assms(2) obtain line where line: "line \<in> set lines" by (cases lines) auto
  from res new close_all_closes [of "listStack st" line] line
  show "res \<noteq> []" "copied res = filter (\<lambda>line. listMatch_of line = None) lines"
    "\<forall>t\<in>set res. \<exists>line\<in>set lines. from_line line t"
    by (auto simp: copied_append)
qed

lemma render_line:
  assumes "from_line line t" and "CHR ''\<newline>'' \<notin> set line"
  shows "CHR ''\<newline>'' \<notin> set (render t)"
  using assms by (cases t) auto

text \<open>
  C5. For every input text the list pass returns (it never reads the top of an empty
  stack), and the lines of the text it returns are well nested: they are the lines of the
  input that are not tagged items, copied in order and each of them outside every list,
  and around the items the tags \<open><ul>\<close>, \<open><ol>\<close>, \<open></ul>\<close> and \<open></ol>\<close>, where every closing
  tag closes the innermost list that is open and is of its kind, and no list is open where
  a line is copied or at the end of the text.
\<close>

theorem wrapListItems_balanced:
  "\<exists>html. wrapListItems text = Inr html
      \<and> well_nested [] (filter (\<lambda>line. listMatch_of line = None) (split text ''\<newline>''))
           (split html ''\<newline>'')"
proof -
  let ?lines = "split text ''\<newline>''"
  from wrap_lines_balanced obtain res where
    res: "wrap_lines ?lines = Inr res" and bal: "opens_after [] res = Some []"
    by blast
  have lines: "?lines \<noteq> []" by (simp add: split_def split_acc_not_Nil)
  note facts = wrap_lines_result [OF res lines]
  have "\<forall>l\<in>set (map render res). CHR ''\<newline>'' \<notin> set l"
  proof
    fix l
    assume "l \<in> set (map render res)"
    then obtain t where t: "t \<in> set res" "l = render t" by auto
    with facts(3) obtain line where line: "line \<in> set ?lines" "from_line line t" by blast
    from split_line [OF line(1)] have "CHR ''\<newline>'' \<notin> set line" .
    from render_line [OF line(2) this] t(2) show "CHR ''\<newline>'' \<notin> set l" by simp
  qed
  with facts(1) have "split (join (map render res) ''\<newline>'') ''\<newline>'' = map render res"
    by (intro split_join_lines) simp_all
  moreover from well_nested_render [OF bal] facts(2)
  have "well_nested [] (filter (\<lambda>line. listMatch_of line = None) ?lines) (map render res)"
    by simp
  ultimately show ?thesis using res by (simp add: wrapListItems_def)
qed

theorem wrapListItems_balanced_witness:
  \<open>wrapListItems ''<li data-level="0" data-ordered="true">a</li>\<newline><li data-level="1">b</li>\<newline>x'' =
     Inr ''<ol>\<newline><li>a</li>\<newline><ul>\<newline><li>b</li>\<newline></ul>\<newline></ol>\<newline>x''
   \<and> well_nested [] [''x'']
        [''<ol>'', ''<li>a</li>'', ''<ul>'', ''<li>b</li>'', ''</ul>'', ''</ol>'', ''x'']\<close>
proof -
  let ?text = \<open>''<li data-level="0" data-ordered="true">a</li>\<newline><li data-level="1">b</li>\<newline>x''\<close>
  have 1: \<open>wrapListItems ?text =
      Inr ''<ol>\<newline><li>a</li>\<newline><ul>\<newline><li>b</li>\<newline></ul>\<newline></ol>\<newline>x''\<close>
    by code_simp
  have 2: "filter (\<lambda>line. listMatch_of line = None) (split ?text ''\<newline>'') = [''x'']"
    by code_simp
  have 3: \<open>split ''<ol>\<newline><li>a</li>\<newline><ul>\<newline><li>b</li>\<newline></ul>\<newline></ol>\<newline>x'' ''\<newline>'' =
      [''<ol>'', ''<li>a</li>'', ''<ul>'', ''<li>b</li>'', ''</ul>'', ''</ol>'', ''x'']\<close>
    by code_simp
  have 4: \<open>well_nested [] [''x'']
      [''<ol>'', ''<li>a</li>'', ''<ul>'', ''<li>b</li>'', ''</ul>'', ''</ol>'', ''x'']\<close>
    using wrapListItems_balanced [of ?text] unfolding 1 2 by (simp only: 3 sum.inject simp_thms)
  from 1 4 show ?thesis by (simp only: simp_thms)
qed

lemma well_nested_examples:
  "\<not> well_nested [] [] [''<ol>'', ''<li>a</li>'']"
  "\<not> well_nested [] [] [''<ol>'', ''<li>a</li>'', ''</ul>'']"
  "\<not> well_nested [] [''x''] [''<ul>'', ''<li>a</li>'', ''x'', ''</ul>'']"
  "well_nested [] [''</ul>''] [''<ul>'', ''<li>a</li>'', ''</ul>'', ''</ul>'']"
  by code_simp+

section \<open>Nesting\<close>

text \<open>
  C10. Three item lines of one kind at levels \<open>lo < mid < hi\<close>, in the order \<open>lo\<close>,
  \<open>hi\<close>, \<open>mid\<close> (the claim has 0, 2, 1): the third line closes the list opened for the
  second and nothing else, since the frame of the first line is below its level; that
  frame is still open, so the item goes into the list of the first line and no list tag is
  opened for it. After the three lines the stack holds the frame of the first line alone.
  The levels are the numbers that \<open>parseInt\<close> reads on the lines, so two levels that differ
  only in digits lost to the rounding are the same level.
\<close>

theorem dedent_to_intermediate_level:
  assumes "listMatch_of l0 = Some (lo, k, a)"
    and "listMatch_of l2 = Some (hi, k, b)"
    and "listMatch_of l1 = Some (mid, k, c)"
    and "lo < mid" and "mid < hi"
  shows "wrap_loop \<lparr>result = [], inList = False, listStack = []\<rparr> [l0, l2, l1] =
           Inr \<lparr>result = [Open_list k, Item a, Open_list k, Item b, Close_list k, Item c],
                 inList = True,
                 listStack = [\<lparr>level = lo, isOrdered = k\<rparr>]\<rparr>
         \<and> map render [Open_list k, Item a, Open_list k, Item b, Close_list k, Item c] =
             [if k then ''<ol>'' else ''<ul>'', ''<li>'' @ a @ ''</li>'',
              if k then ''<ol>'' else ''<ul>'', ''<li>'' @ b @ ''</li>'',
              if k then ''</ol>'' else ''</ul>'', ''<li>'' @ c @ ''</li>'']"
proof -
  from \<open>lo < mid\<close> \<open>mid < hi\<close>
  have "lo < hi" "\<not> mid \<le> lo" "mid \<le> hi" "\<not> hi < mid" "\<not> hi < lo"
    "mid \<noteq> hi" "mid \<noteq> lo" "hi \<noteq> lo"
    by auto
  with assms(1-3) show ?thesis by (simp add: wrap_line_def wrap_item_def)
qed

theorem dedent_to_intermediate_level_witness:
  \<open>wrap_loop \<lparr>result = [], inList = False, listStack = []\<rparr>
     [''<li data-level="0">a</li>'', ''<li data-level="2">b</li>'', ''<li data-level="1">c</li>''] =
   Inr \<lparr>result = [Open_list False, Item ''a'', Open_list False, Item ''b'', Close_list False,
                   Item ''c''],
         inList = True,
         listStack = [\<lparr>level = Finite 0, isOrdered = False\<rparr>]\<rparr>
   \<and> map render [Open_list False, Item ''a'', Open_list False, Item ''b'', Close_list False,
                  Item ''c''] =
       [''<ul>'', ''<li>a</li>'', ''<ul>'', ''<li>b</li>'', ''</ul>'', ''<li>c</li>'']\<close>
proof -
  have l0: \<open>listMatch_of ''<li data-level="0">a</li>'' = Some (Finite 0, False, ''a'')\<close>
    by code_simp
  have l2: \<open>listMatch_of ''<li data-level="2">b</li>'' = Some (Finite 2, False, ''b'')\<close>
    by code_simp
  have l1: \<open>listMatch_of ''<li data-level="1">c</li>'' = Some (Finite 1, False, ''c'')\<close>
    by code_simp
  have "Finite 0 < Finite 1" "Finite 1 < Finite 2" by (simp_all add: less_number_def)
  from dedent_to_intermediate_level [OF l0 l2 l1 this] show ?thesis by simp
qed

lemma dedent_example:
  "parseLists ''- a\<newline>    - b\<newline>  - c'' =
     Inr ''<ul>\<newline><li>a</li>\<newline><ul>\<newline><li>b</li>\<newline></ul>\<newline><li>c</li>\<newline></ul>''"
  by code_simp

subsection \<open>Levels that are rounded\<close>

text \<open>
  From \<open>2 ^ 53\<close> on the levels are rounded: the lines at 9007199254740992,
  9007199254740994 and 9007199254740993 have the levels 9007199254740992,
  9007199254740994 and 9007199254740992, so the third line closes both lists and opens a
  new one.
\<close>

lemma bit_length_bounds: "2 ^ k \<le> n \<Longrightarrow> n < 2 ^ Suc k \<Longrightarrow> bit_length n = Suc k"
proof (induction k arbitrary: n)
  case 0
  then have "n = 1" by simp
  then show ?case by simp
next
  case (Suc k)
  from Suc.prems have "2 ^ k \<le> n div 2" "n div 2 < 2 ^ Suc k" by simp_all
  from Suc.IH [OF this] Suc.prems show ?case
    by (subst bit_length.simps) (simp del: bit_length.simps)
qed

lemma parseInt_exact_example: "parseInt ''9007199254740994'' = Finite 9007199254740994"
proof -
  have "bit_length 9007199254740994 = Suc 53" by (rule bit_length_bounds) simp_all
  then show ?thesis
    by (simp add: parseInt_def to_number_def code_def Let_def del: bit_length.simps)
qed

lemma parseInt_rounded_example:
  "parseInt ''9007199254740992'' = Finite 9007199254740992"
  "parseInt ''9007199254740993'' = Finite 9007199254740992"
proof -
  have "bit_length 9007199254740992 = Suc 53" by (rule bit_length_bounds) simp_all
  moreover have "bit_length 9007199254740993 = Suc 53" by (rule bit_length_bounds) simp_all
  ultimately show "parseInt ''9007199254740992'' = Finite 9007199254740992"
    "parseInt ''9007199254740993'' = Finite 9007199254740992"
    by (simp_all add: parseInt_def to_number_def code_def Let_def del: bit_length.simps)
qed

lemma listMatch_of_groups:
  assumes "map_option (\<lambda>(i, j, listMatch). (grp listMatch 1, grp listMatch 2))
             (exec tagged_item line 0) = Some (digits, content)"
  shows \<open>listMatch_of line =
           Some (parseInt digits, str_includes line ''data-ordered="true"'', content)\<close>
  using assms by (auto simp: listMatch_of_def split: option.splits)

lemma rounded_levels_example:
  \<open>wrap_lines [''<li data-level="9007199254740992">a</li>'',
                ''<li data-level="9007199254740994">b</li>'',
                ''<li data-level="9007199254740993">c</li>''] =
   Inr [Open_list False, Item ''a'', Open_list False, Item ''b'', Close_list False,
        Close_list False, Open_list False, Item ''c'', Close_list False]\<close>
proof -
  have \<open>map_option (\<lambda>(i, j, listMatch). (grp listMatch 1, grp listMatch 2))
     (exec tagged_item ''<li data-level="9007199254740992">a</li>'' 0) =
     Some (''9007199254740992'', ''a'')\<close>
    by code_simp
  moreover have \<open>\<not> str_includes ''<li data-level="9007199254740992">a</li>'' ''data-ordered="true"''\<close>
    by code_simp
  ultimately have a: \<open>listMatch_of ''<li data-level="9007199254740992">a</li>'' =
      Some (Finite 9007199254740992, False, ''a'')\<close>
    by (simp only: listMatch_of_groups parseInt_rounded_example)
  have \<open>map_option (\<lambda>(i, j, listMatch). (grp listMatch 1, grp listMatch 2))
     (exec tagged_item ''<li data-level="9007199254740994">b</li>'' 0) =
     Some (''9007199254740994'', ''b'')\<close>
    by code_simp
  moreover have \<open>\<not> str_includes ''<li data-level="9007199254740994">b</li>'' ''data-ordered="true"''\<close>
    by code_simp
  ultimately have b: \<open>listMatch_of ''<li data-level="9007199254740994">b</li>'' =
      Some (Finite 9007199254740994, False, ''b'')\<close>
    by (simp only: listMatch_of_groups parseInt_exact_example)
  have \<open>map_option (\<lambda>(i, j, listMatch). (grp listMatch 1, grp listMatch 2))
     (exec tagged_item ''<li data-level="9007199254740993">c</li>'' 0) =
     Some (''9007199254740993'', ''c'')\<close>
    by code_simp
  moreover have \<open>\<not> str_includes ''<li data-level="9007199254740993">c</li>'' ''data-ordered="true"''\<close>
    by code_simp
  ultimately have c: \<open>listMatch_of ''<li data-level="9007199254740993">c</li>'' =
      Some (Finite 9007199254740992, False, ''c'')\<close>
    by (simp only: listMatch_of_groups parseInt_rounded_example)
  from a b c show ?thesis
    by (simp add: wrap_lines_def wrap_line_def wrap_item_def close_all_def less_number_def)
qed

section \<open>The entry point: invalid input and trimming\<close>

lemma takeWhile_dropWhile_same: "takeWhile P (dropWhile P xs) = []"
  by (induction xs) auto

lemma trim_no_trailing_space: "takeWhile is_space (rev (trim s)) = []"
  by (simp add: trim_def takeWhile_dropWhile_same)

lemma trim_no_leading_space: "takeWhile is_space (trim s) = []"
proof (cases "dropWhile is_space s")
  case Nil
  show ?thesis unfolding trim_def Nil by simp
next
  case (Cons y ys)
  then have y: "\<not> is_space y"
    using hd_dropWhile [of is_space s] by auto
  have "dropWhile is_space (rev ys @ [y]) = dropWhile is_space (rev ys) @ [y]"
    using y by (simp add: dropWhile_append3)
  with Cons have "trim s = y # rev (dropWhile is_space (rev ys))"
    by (simp add: trim_def)
  with y show ?thesis by simp
qed

lemma trim_trim: "trim (trim s) = trim s"
proof -
  have "dropWhile is_space (trim s) = trim s"
    using trim_no_leading_space [of s] by (metis takeWhile_dropWhile_id append_Nil)
  moreover have "dropWhile is_space (rev (trim s)) = rev (trim s)"
    using trim_no_trailing_space [of s] by (metis takeWhile_dropWhile_id append_Nil)
  ultimately show ?thesis by (simp add: trim_def [of "trim s"])
qed

lemma wrapListItems_total: "\<exists>html. wrapListItems text = Inr html"
proof -
  from wrap_lines_balanced obtain res where "wrap_lines (split text ''\<newline>'') = Inr res"
    by blast
  then show ?thesis by (simp add: wrapListItems_def)
qed

lemma pipeline_total: "\<exists>html. pipeline markdown = Inr (trim html)"
proof -
  obtain t where "parseLists (parseBlockquotes (parseHeaders (parseInlineCode
      (parseCodeBlocks markdown)))) = Inr t"
    using wrapListItems_total by (auto simp: parseLists_def Let_def)
  then show ?thesis by (auto simp: pipeline_def Let_def)
qed

text \<open>
  C8. On \<open>undefined\<close>, \<open>null\<close>, a boolean, a number, an object and the empty string the
  entry point returns the empty string; on every string it returns a string (no pass
  faults) that \<open>trim\<close> leaves as it is: it has no run of whitespace at its start and none
  at its end.
\<close>

theorem parseMarkdown_invalid_input_and_trim:
  "parseMarkdown JUndefined = Inr []
   \<and> parseMarkdown JNull = Inr []
   \<and> parseMarkdown (JBoolean b) = Inr []
   \<and> parseMarkdown (JNumber n) = Inr []
   \<and> parseMarkdown JObject = Inr []
   \<and> parseMarkdown (JString []) = Inr []
   \<and> (\<exists>html. parseMarkdown (JString markdown) = Inr html
         \<and> trim html = html
         \<and> takeWhile is_space html = []
         \<and> takeWhile is_space (rev html) = [])"
proof -
  have invalid: "parseMarkdown JUndefined = Inr []" "parseMarkdown JNull = Inr []"
    "parseMarkdown (JBoolean b) = Inr []" "parseMarkdown (JNumber n) = Inr []"
    "parseMarkdown JObject = Inr []" "parseMarkdown (JString []) = Inr []"
    by (simp_all add: parseMarkdown_def)
  have "\<exists>html. parseMarkdown (JString markdown) = Inr html \<and> trim html = html
         \<and> takeWhile is_space html = [] \<and> takeWhile is_space (rev html) = []"
  proof (cases "markdown = []")
    case True
    then show ?thesis by (simp add: parseMarkdown_def trim_def)
  next
    case False
    from pipeline_total obtain h where "pipeline markdown = Inr (trim h)" by blast
    with False show ?thesis
      by (simp add: parseMarkdown_def trim_trim trim_no_leading_space trim_no_trailing_space)
  qed
  with invalid show ?thesis by simp
qed

section \<open>The passes on the inputs of the other claims\<close>

text \<open>
  C1. The body of a fenced block is not kept apart from the later passes: the block
  \<open>x = a * b * c\<close> between two fence lines leaves the parser with the text between its
  two asterisks inside an \<open><em></em>\<close> element, within the \<open><pre><code>\<close> element.
\<close>

theorem fenced_code_emphasis_rewritten:
  "parseMarkdown (JString ''```\<newline>x = a * b * c\<newline>```'') =
     Inr ''<pre><code>x = a <em> b </em> c</code></pre>''"
  by code_simp

lemma fenced_code_heading_example:
  "parseMarkdown (JString ''```\<newline># not a heading\<newline>```'') =
     Inr ''<pre><code># not a heading</code></pre>''"
  by code_simp

text \<open>
  C2. The link pass runs before the image pass, so on \<open>![alt](src)\<close> the plain-link
  expression takes \<open>[alt](src)\<close> and the image pass finds nothing: the output is an
  exclamation mark followed by an anchor, and no \<open><img>\<close> tag.
\<close>

theorem image_consumed_by_link_pass:
  \<open>parseMarkdown (JString ''![alt](src)'') = Inr ''<p>!<a href="src">alt</a></p>''\<close>
  by code_simp

text \<open>
  C3. On \<open>[text](http://x.com)\<close> the plain-link rewrite produces the anchor, and the
  autolink rewrite then matches the URL inside its \<open>href\<close> attribute, up to the next
  \<open><\<close>, and wraps it in a second anchor.
\<close>

theorem autolink_rewrites_anchor:
  \<open>parseLinks ''[text](http://x.com)'' =
     ''<a href="<a href="http://x.com">text">http://x.com">text</a></a>''\<close>
  by code_simp

text \<open>
  C4. Unordered items at levels 0, 1, 1, 0: the fourth line closes the nested list and
  the outer list too (every frame whose level is at least 0), then opens a new outer list.
  The output has two outer lists, the first with the first item and the nested list, the
  second with the fourth item alone.
\<close>

theorem dedent_to_open_level_splits_list:
  "parseLists ''- a\<newline>  - b\<newline>  - c\<newline>- d'' =
     Inr ''<ul>\<newline><li>a</li>\<newline><ul>\<newline><li>b</li>\<newline><li>c</li>\<newline></ul>\<newline></ul>\<newline><ul>\<newline><li>d</li>\<newline></ul>''"
  by code_simp

text \<open>
  C6. A \<open>-\<close> item and an \<open>N.\<close> item at level 1, under an item at level 0: the nested
  unordered list is closed, but the stack is not empty then, so no ordered list is opened
  and the \<open>N.\<close> item is emitted into the unordered list of level 0.
\<close>

theorem nested_marker_switch_joins_outer_list:
  "parseLists ''- a\<newline>  - b\<newline>  1. c'' =
     Inr ''<ul>\<newline><li>a</li>\<newline><ul>\<newline><li>b</li>\<newline></ul>\<newline><li>c</li>\<newline></ul>''"
  by code_simp

lemma marker_switch_example:
  "parseLists ''- a\<newline>1. b'' =
     Inr ''<ul>\<newline><li>a</li>\<newline></ul>\<newline><ol>\<newline><li>b</li>\<newline></ol>''"
  by code_simp

text \<open>
  C7. The id of a heading is trimmed of whitespace after its whitespace has become
  hyphens, so a hyphen at its end stays: the heading \<open>## Hello, World !\<close> gets the id
  \<open>hello-world-\<close>.
\<close>

theorem header_id_trailing_hyphen:
  \<open>parseHeaders ''## Hello, World !'' = ''<h2 id="hello-world-">Hello, World !</h2>''\<close>
  by code_simp

lemma header_id_example:
  \<open>parseHeaders ''## Hello, World!'' = ''<h2 id="hello-world">Hello, World!</h2>''\<close>
  by code_simp

section \<open>Round trip of plain text\<close>

text \<open>
  Plain text, for the round trip: a string
  \<^item> without the characters that the inline passes key on (backtick, \<open>*\<close>, \<open>_\<close>, \<open>~\<close>, \<open>[\<close>)
    and without \<open><\<close>;
  \<^item> where no line has \<open>#\<close>, \<open>>\<close>, \<open>-\<close> or a decimal digit as its first character that is
    not whitespace (\<open>markers_not_first blank s\<close> reads \<open>s\<close>, \<open>blank\<close> telling whether only
    whitespace was read since the start of the line);
  \<^item> where no \<open>/\<close> comes right after a \<open>:\<close> (\<open>no_url colon s\<close>, \<open>colon\<close> telling whether
    the character before was a colon);
  \<^item> with no line break right after two spaces (\<open>hard_break_free n s\<close> reads \<open>s\<close> after
    \<open>n\<close> spaces, two standing for two or more).
\<close>

definition inline_marker :: "char \<Rightarrow> bool" where
  "inline_marker c = (c \<in> set ''`*_~['')"

definition block_marker :: "char \<Rightarrow> bool" where
  "block_marker c = (c = CHR ''#'' \<or> c = CHR ''>'' \<or> c = CHR ''-'' \<or> is_digit c)"

fun markers_not_first :: "bool \<Rightarrow> string \<Rightarrow> bool" where
  "markers_not_first blank [] = True"
| "markers_not_first blank (c # cs) =
     (if is_line_terminator c then markers_not_first True cs
      else if is_space c then markers_not_first blank cs
      else (blank \<longrightarrow> \<not> block_marker c) \<and> markers_not_first False cs)"

fun no_url :: "bool \<Rightarrow> string \<Rightarrow> bool" where
  "no_url colon [] = True"
| "no_url colon (c # cs) = ((colon \<longrightarrow> c \<noteq> CHR ''/'') \<and> no_url (c = CHR '':'') cs)"

fun hard_break_free :: "nat \<Rightarrow> string \<Rightarrow> bool" where
  "hard_break_free n [] = True"
| "hard_break_free n (c # cs) =
     (if c = CHR '' '' then hard_break_free (min 2 (Suc n)) cs
      else if c = CHR ''\<newline>'' then n < 2 \<and> hard_break_free 0 cs
      else hard_break_free 0 cs)"

definition plain :: "string \<Rightarrow> bool" where
  "plain s = (list_all (\<lambda>c. \<not> inline_marker c \<and> c \<noteq> CHR ''<'') s
              \<and> markers_not_first True s \<and> no_url False s \<and> hard_break_free 0 s)"

declare exec.simps [simp del] all_matches.simps [simp del]

subsection \<open>Expressions that cannot match\<close>

text \<open>
  \<open>needs P r\<close>: every match of \<open>r\<close> consumes a character that satisfies \<open>P\<close>. On a
  string without such a character \<open>r\<close> matches nowhere and \<open>replace\<close> returns the string.
\<close>

fun needs :: "(char \<Rightarrow> bool) \<Rightarrow> regex \<Rightarrow> bool" where
  "needs P (Sym p) = (\<forall>c. p c \<longrightarrow> P c)"
| "needs P (Seq a b) = (needs P a \<or> needs P b)"
| "needs P (Grp n r) = needs P r"
| "needs P (Rep mn mx g r) = (0 < mn \<and> needs P r)"
| "needs P Eps = False"
| "needs P Bol = False"
| "needs P Eol = False"

lemma needs_no_match:
  "needs P r \<Longrightarrow> \<forall>x\<in>set s. \<not> P x \<Longrightarrow> matches r s i c = []"
proof (induction r s i c rule: matches.induct)
  case (2 p s i c)
  then show ?case by auto
next
  case (5 a b s i c)
  then show ?case by auto
next
  case (6 n r s i c)
  then show ?case by auto
next
  case (7 mn mx g r s i c)
  then have "mx \<noteq> Some 0 \<Longrightarrow> matches r s i (clear_groups (groups_of r) c) = []"
    by simp
  with 7 show ?case by (auto simp: matches.simps(7))
qed simp_all

lemma needs_lit: "needs P (lit s) = (\<exists>a\<in>set s. P a)"
  by (induction s) (auto simp: lit_def is_chr_def)

lemma needs_seqs: "needs P (seqs rs) = (\<exists>r\<in>set rs. needs P r)"
  by (induction rs) (auto simp: seqs_def)

lemma exec_no_match:
  "(\<And>i. matches r s i (\<lambda>n. None) = []) \<Longrightarrow> exec r s k = None"
proof (induction r s k rule: exec.induct)
  case (1 r s i)
  then show ?case by (simp add: exec.simps [of r s i])
qed

lemma replace_no_match:
  assumes "\<And>i. matches r s i (\<lambda>n. None) = []"
  shows "replace r f s = s"
proof -
  have "exec r s 0 = None" using assms by (rule exec_no_match)
  then show ?thesis by (simp add: replace_def all_matches.simps [of r s 0])
qed

lemma replace_needs:
  "needs P r \<Longrightarrow> \<forall>x\<in>set s. \<not> P x \<Longrightarrow> replace r f s = s"
  by (rule replace_no_match) (rule needs_no_match)

lemma seq_match:
  "matches (Seq a b) s i c \<noteq> [] \<Longrightarrow>
     \<exists>j c'. (j, c') \<in> set (matches a s i c) \<and> matches b s j c' \<noteq> []"
  by auto

lemma grp_match:
  "(j, c') \<in> set (matches (Grp n r) s i c) \<Longrightarrow> \<exists>c''. (j, c'') \<in> set (matches r s i c)"
  by auto

lemma bol_match:
  "(j, c') \<in> set (matches Bol s i c) \<Longrightarrow> j = i \<and> (i = 0 \<or> is_line_terminator (s ! (i - 1)))"
  by (auto split: if_splits)

lemma lit_match_first:
  "matches (Seq (lit (a # p)) r) s i c \<noteq> [] \<Longrightarrow> i < length s \<and> s ! i = a"
  by (auto simp: lit_def is_chr_def split: if_splits)

lemma lit_match_pair:
  "matches (Seq (lit (a # b # p)) r) s i c \<noteq> [] \<Longrightarrow>
     Suc i < length s \<and> s ! i = a \<and> s ! Suc i = b"
  by (auto simp: lit_def is_chr_def split: if_splits)

fun chain :: "nat \<Rightarrow> (nat \<times> nat \<times> captures) list \<Rightarrow> nat \<Rightarrow> bool" where
  "chain k [] len = True"
| "chain k ((i, j, c) # ms) len = (k \<le> i \<and> i \<le> j \<and> j \<le> len \<and> chain j ms len)"

lemma chain_mono: "chain k' ms len \<Longrightarrow> k \<le> k' \<Longrightarrow> chain k ms len"
  by (cases ms) auto

lemma all_matches_chain: "chain k (all_matches r s k) (length s)"
proof (induction r s k rule: all_matches.induct)
  case (1 r s k)
  show ?case
  proof (cases "exec r s k")
    case None
    then show ?thesis by (simp add: all_matches.simps [of r s k])
  next
    case (Some m)
    obtain i j c where m: "m = (i, j, c)" by (cases m)
    from exec_bounds [of r s k i j c] Some m
    have b: "k \<le> i" "i \<le> j" "j \<le> length s" by simp_all
    have "chain j (if i < j then all_matches r s j
                   else if i < length s then all_matches r s (Suc i) else []) (length s)"
    proof (cases "i < j")
      case True
      with "1.IH"(1) [OF Some m [symmetric] refl] show ?thesis by simp
    next
      case False
      with b have ij: "j = i" by simp
      show ?thesis
      proof (cases "i < length s")
        case True
        from "1.IH"(2) [OF Some m [symmetric] refl False True]
        have "chain (Suc i) (all_matches r s (Suc i)) (length s)" .
        then have "chain j (all_matches r s (Suc i)) (length s)"
          using ij by (auto intro: chain_mono)
        with False True show ?thesis by simp
      next
        case False
        with \<open>\<not> i < j\<close> show ?thesis by simp
      qed
    qed
    with Some m b show ?thesis by (simp add: all_matches.simps [of r s k])
  qed
qed

lemma all_matches_mem:
  "(i, j, c) \<in> set (all_matches r s k) \<Longrightarrow> (j, c) \<in> set (matches r s i (\<lambda>n. None))"
proof (induction r s k rule: all_matches.induct)
  case (1 r s k)
  show ?case
  proof (cases "exec r s k")
    case None
    with "1.prems" show ?thesis by (simp add: all_matches.simps [of r s k])
  next
    case (Some m)
    obtain i' j' c' where m: "m = (i', j', c')" by (cases m)
    from "1.prems" Some m consider (head) "(i, j, c) = (i', j', c')"
      | (tail1) "i' < j'" "(i, j, c) \<in> set (all_matches r s j')"
      | (tail2) "\<not> i' < j'" "i' < length s" "(i, j, c) \<in> set (all_matches r s (Suc i'))"
      by (auto simp: all_matches.simps [of r s k] split: if_splits)
    then show ?thesis
    proof cases
      case head
      with exec_Some_match [of r s k i' j' c'] Some m show ?thesis by simp
    next
      case tail1
      from "1.IH"(1) [OF Some m [symmetric] refl tail1] show ?thesis .
    next
      case tail2
      from "1.IH"(2) [OF Some m [symmetric] refl tail2] show ?thesis .
    qed
  qed
qed

lemma substring_drop:
  assumes "k \<le> i"
  shows "substring s k i @ drop i s = drop k s"
proof -
  have "take (i - k) (drop k s) @ drop (i - k) (drop k s) = drop k s"
    by (rule append_take_drop_id)
  with assms show ?thesis by (simp add: substring_def)
qed

lemma splice_identity:
  "chain k ms (length s) \<Longrightarrow> \<forall>(i, j, c)\<in>set ms. f (substring s i j) c = substring s i j \<Longrightarrow>
     splice s k ms f = drop k s"
proof (induction ms arbitrary: k)
  case Nil
  show ?case by simp
next
  case (Cons m ms)
  obtain i j c where m: "m = (i, j, c)" by (cases m)
  with Cons.prems have b: "k \<le> i" "i \<le> j" "j \<le> length s" and ch: "chain j ms (length s)"
    and f: "f (substring s i j) c = substring s i j" by auto
  from Cons.IH [OF ch] Cons.prems(2) have "splice s j ms f = drop j s" by auto
  moreover have "substring s k i @ substring s i j @ drop j s = drop k s"
    using substring_drop [OF b(1), of s] substring_drop [OF b(2), of s] by simp
  ultimately show ?case using m f by simp
qed

lemma set_splice:
  "\<forall>m c. set (f m c) \<subseteq> A \<Longrightarrow> set (splice s k ms f) \<subseteq> set s \<union> A"
proof (induction ms arbitrary: k)
  case Nil
  show ?case using set_drop_subset [of k s] by auto
next
  case (Cons m ms)
  obtain i j c where m: "m = (i, j, c)" by (cases m)
  have "set (substring s k i) \<subseteq> set s"
    unfolding substring_def using set_take_subset set_drop_subset by fast
  moreover from Cons.prems have "set (f (substring s i j) c) \<subseteq> A" by blast
  moreover from Cons.IH [OF Cons.prems] have "set (splice s j ms f) \<subseteq> set s \<union> A" .
  ultimately show ?case using m by auto
qed

lemma rep_sym_matches:
  "(j, c') \<in> set (matches (Rep mn mx g (Sym p)) s i c) \<Longrightarrow>
     i + mn \<le> j \<and> (\<forall>k. i \<le> k \<and> k < j \<longrightarrow> k < length s \<and> p (s ! k))"
proof (induction "length s - i" arbitrary: i mn mx c)
  case 0
  then have "matches (Sym p) s i c0 = []" for c0 by simp
  with "0.prems" show ?case
    by (auto simp: matches.simps(7) [of mn mx g "Sym p" s i c] Let_def split: if_splits)
next
  case (Suc n)
  from Suc.prems consider (stop) "mn = 0" "j = i"
    | (more) c0 where "i < length s" "p (s ! i)"
        "(j, c') \<in> set (matches (Rep (mn - 1) (map_option (\<lambda>k. k - 1) mx) g (Sym p)) s (Suc i) c0)"
    by (auto simp: matches.simps(7) [of mn mx g "Sym p" s i c] Let_def split: if_splits)
  then show ?case
  proof cases
    case stop
    then show ?thesis by auto
  next
    case more
    from Suc.hyps(2) have "n = length s - Suc i" by simp
    from Suc.hyps(1) [OF this more(3)]
    have "Suc i + (mn - 1) \<le> j" and rest: "\<forall>k. Suc i \<le> k \<and> k < j \<longrightarrow> k < length s \<and> p (s ! k)"
      by simp_all
    then have "i + mn \<le> j" by simp
    moreover have "k < length s \<and> p (s ! k)" if "i \<le> k \<and> k < j" for k
    proof (cases "k = i")
      case True
      with more show ?thesis by simp
    next
      case False
      with that rest show ?thesis by simp
    qed
    ultimately show ?thesis by simp
  qed
qed

lemma substring_replicate:
  assumes "i \<le> j" and "\<forall>k. i \<le> k \<and> k < j \<longrightarrow> k < length s \<and> s ! k = a"
  shows "substring s i j = replicate (j - i) a"
proof (cases "i = j")
  case True
  then show ?thesis by (simp add: substring_def)
next
  case False
  with assms(1) have "i \<le> j - 1 \<and> j - 1 < j" by simp
  with assms(2) have "j - 1 < length s" by blast
  then have j: "j \<le> length s" by simp
  show ?thesis
  proof (rule nth_equalityI)
    from j show len: "length (substring s i j) = length (replicate (j - i) a)"
      by (simp add: substring_def)
    fix k
    assume "k < length (substring s i j)"
    with len have k: "k < j - i" by simp
    with assms(2) have "s ! (i + k) = a" by simp
    with k j show "substring s i j ! k = replicate (j - i) a ! k"
      by (simp add: substring_def)
  qed
qed

lemma blank_lines_match:
  assumes "(i, j, c) \<in> set (all_matches blank_lines s k)"
  shows "\<exists>m\<ge>2. substring s i j = replicate m (CHR ''\<newline>'')"
proof -
  from all_matches_mem [OF assms]
  have "(j, c) \<in> set (matches (Rep 2 None True (Sym (is_chr (CHR ''\<newline>'')))) s i (\<lambda>n. None))"
    by (simp add: blank_lines_def)
  from rep_sym_matches [OF this]
  have "i + 2 \<le> j" and "\<forall>k. i \<le> k \<and> k < j \<longrightarrow> k < length s \<and> s ! k = CHR ''\<newline>''"
    by (simp_all add: is_chr_def)
  with substring_replicate [of i j s "CHR ''\<newline>''"]
  have "substring s i j = replicate (j - i) (CHR ''\<newline>'')" "2 \<le> j - i" by simp_all
  then show ?thesis by blast
qed

lemma chain_mem:
  "chain k ms len \<Longrightarrow> (i, j, c) \<in> set ms \<Longrightarrow> k \<le> i \<and> i \<le> j \<and> j \<le> len"
proof (induction ms arbitrary: k)
  case Nil
  then show ?case by simp
next
  case (Cons m ms)
  obtain i' j' c' where m: "m = (i', j', c')" by (cases m)
  with Cons.prems have b: "k \<le> i'" "i' \<le> j'" "j' \<le> len" and ch: "chain j' ms len" by auto
  from Cons.prems(2) m consider "(i, j, c) = (i', j', c')" | "(i, j, c) \<in> set ms" by auto
  then show ?case
  proof cases
    case 1
    with b show ?thesis by simp
  next
    case 2
    from Cons.IH [OF ch 2] b show ?thesis by simp
  qed
qed

subsection \<open>Reading a string from a state\<close>

fun blank_after :: "bool \<Rightarrow> string \<Rightarrow> bool" where
  "blank_after blank [] = blank"
| "blank_after blank (c # cs) =
     (if is_line_terminator c then blank_after True cs
      else if is_space c then blank_after blank cs
      else blank_after False cs)"

fun colon_after :: "bool \<Rightarrow> string \<Rightarrow> bool" where
  "colon_after colon [] = colon"
| "colon_after colon (c # cs) = colon_after (c = CHR '':'') cs"

fun spaces_after :: "nat \<Rightarrow> string \<Rightarrow> nat" where
  "spaces_after n [] = n"
| "spaces_after n (c # cs) = (if c = CHR '' '' then spaces_after (min 2 (Suc n)) cs
                             else spaces_after 0 cs)"

lemma terminator_is_space: "is_line_terminator c \<Longrightarrow> is_space c"
  by (auto simp: is_line_terminator_def is_space_def)

lemma block_marker_not_space: "block_marker c \<Longrightarrow> \<not> is_space c"
  by (auto simp: block_marker_def is_space_def is_digit_def code_def)

lemma markers_not_first_append:
  "markers_not_first b (x @ y) = (markers_not_first b x \<and> markers_not_first (blank_after b x) y)"
  by (induction b x rule: markers_not_first.induct) auto

lemma markers_not_first_mono: "markers_not_first True x \<Longrightarrow> markers_not_first b x"
  by (induction b x rule: markers_not_first.induct) (auto split: if_splits)

lemma markers_not_first_spaces:
  "\<forall>c\<in>set ws. is_space c \<Longrightarrow> markers_not_first True (ws @ y) = markers_not_first True y"
  by (induction ws) auto

lemma blank_after_terminator:
  "u \<noteq> [] \<Longrightarrow> is_line_terminator (last u) \<Longrightarrow> blank_after b u = True"
  by (induction b u rule: blank_after.induct) (auto split: if_splits)

lemma blank_after_not_space:
  "u \<noteq> [] \<Longrightarrow> \<not> is_space (last u) \<Longrightarrow> blank_after b u = False"
  by (induction b u rule: blank_after.induct) (auto split: if_splits dest: terminator_is_space)

lemma blank_after_append: "blank_after b (x @ y) = blank_after (blank_after b x) y"
  by (induction b x rule: blank_after.induct) auto

lemma blank_after_spaces: "\<forall>c\<in>set ws. is_space c \<Longrightarrow> blank_after True ws = True"
  by (induction ws) auto

lemma markers_not_first_nth:
  assumes ok: "markers_not_first True x"
    and bol: "i = 0 \<or> is_line_terminator (x ! (i - 1))"
    and ij: "i \<le> j" "j < length x"
    and ws: "\<forall>k. i \<le> k \<and> k < j \<longrightarrow> is_space (x ! k)"
    and m: "block_marker (x ! j)"
  shows False
proof -
  have "take j x = take i (take j x) @ drop i (take j x)"
    by (rule append_take_drop_id [symmetric])
  moreover have "take i (take j x) = take i x" using ij by (simp add: min_def)
  moreover have "drop i (take j x) = substring x i j" by (simp add: substring_def drop_take)
  ultimately have tj: "take j x = take i x @ substring x i j" by (simp only:)
  have start: "blank_after True (take i x) = True"
  proof (cases "i = 0")
    case True
    then show ?thesis by simp
  next
    case False
    with ij have ne: "take i x \<noteq> []" and len: "length (take i x) = i" by auto
    from ne have "last (take i x) = take i x ! (length (take i x) - 1)"
      by (rule last_conv_nth)
    with len False have "last (take i x) = x ! (i - 1)" by simp
    with ne bol False show ?thesis by (simp add: blank_after_terminator)
  qed
  have "\<forall>c\<in>set (substring x i j). is_space c"
  proof
    fix c
    assume "c \<in> set (substring x i j)"
    then obtain k where "k < length (substring x i j)" "substring x i j ! k = c"
      by (auto simp: in_set_conv_nth)
    with ij have "k < j - i" "c = x ! (i + k)" by (auto simp: substring_def)
    with ws show "is_space c" by simp
  qed
  with start tj have "blank_after True (take j x) = True"
    by (simp add: blank_after_append blank_after_spaces)
  moreover from ok ij(2) have "markers_not_first True (take j x @ x ! j # drop (Suc j) x)"
    by (simp add: id_take_nth_drop [symmetric])
  ultimately have "markers_not_first True (x ! j # drop (Suc j) x)"
    by (simp only: markers_not_first_append)
  moreover from block_marker_not_space [OF m] have "\<not> is_space (x ! j)"
    "\<not> is_line_terminator (x ! j)" by (auto dest: terminator_is_space)
  ultimately show False using m by simp
qed

lemma no_url_append:
  "no_url b (x @ y) = (no_url b x \<and> no_url (colon_after b x) y)"
  by (induction b x rule: no_url.induct) auto

lemma no_url_mono: "no_url b x \<Longrightarrow> no_url False x"
  by (cases x) auto

lemma no_url_sub: "no_url False (u @ x @ v) \<Longrightarrow> no_url False x"
  by (auto simp: no_url_append intro: no_url_mono)

lemma colon_after_last: "u \<noteq> [] \<Longrightarrow> last u \<noteq> CHR '':'' \<Longrightarrow> colon_after b u = False"
  by (induction b u rule: colon_after.induct) (auto split: if_splits)

lemma no_url_nth:
  "no_url b x \<Longrightarrow> Suc k < length x \<Longrightarrow> x ! k = CHR '':'' \<Longrightarrow> x ! Suc k = CHR ''/'' \<Longrightarrow> False"
proof (induction b x arbitrary: k rule: no_url.induct)
  case (1 colon)
  then show ?case by simp
next
  case (2 colon c cs)
  show ?case
  proof (cases k)
    case 0
    with "2.prems" show ?thesis by (cases cs) auto
  next
    case (Suc k')
    with "2.prems" "2.IH" [of k'] show ?thesis by auto
  qed
qed

lemma hard_break_free_append:
  "hard_break_free n (a @ b) = (hard_break_free n a \<and> hard_break_free (spaces_after n a) b)"
  by (induction n a rule: hard_break_free.induct) auto

lemma hard_break_free_mono:
  "hard_break_free n x \<Longrightarrow> m \<le> n \<Longrightarrow> hard_break_free m x"
proof (induction n x arbitrary: m rule: hard_break_free.induct)
  case (1 n)
  show ?case by simp
next
  case (2 n c cs)
  then show ?case by (auto split: if_splits)
qed

lemma hard_break_free_newlines:
  "0 < m \<Longrightarrow> hard_break_free n (replicate m (CHR ''\<newline>'') @ b) = (n < 2 \<and> hard_break_free 0 b)"
proof (induction m arbitrary: n)
  case 0
  then show ?case by simp
next
  case (Suc m)
  show ?case
  proof (cases "m = 0")
    case True
    then show ?thesis by simp
  next
    case False
    with Suc.IH [of 0] show ?thesis by simp
  qed
qed

lemma hard_break_free_nth:
  "hard_break_free n x \<Longrightarrow> i + 2 < length x \<Longrightarrow> x ! i = CHR '' '' \<Longrightarrow>
     x ! (i + 1) = CHR '' '' \<Longrightarrow> x ! (i + 2) = CHR ''\<newline>'' \<Longrightarrow> False"
proof (induction n x arbitrary: i rule: hard_break_free.induct)
  case (1 n)
  then show ?case by simp
next
  case (2 n c cs)
  show ?case
  proof (cases i)
    case 0
    with "2.prems" obtain rest where cs: "cs = CHR '' '' # CHR ''\<newline>'' # rest" and c: "c = CHR '' ''"
      by (cases cs; cases "tl cs") auto
    with "2.prems"(1) show ?thesis by (simp add: min_def split: if_splits)
  next
    case (Suc i')
    with "2.prems" have nth: "i' + 2 < length cs" "cs ! i' = CHR '' ''"
      "cs ! (i' + 1) = CHR '' ''" "cs ! (i' + 2) = CHR ''\<newline>''" by simp_all
    show ?thesis
    proof (cases "c = CHR '' ''")
      case True
      with "2.prems"(1) have "hard_break_free (min 2 (Suc n)) cs" by simp
      from "2.IH"(1) [OF True this nth] show ?thesis .
    next
      case False
      with "2.prems"(1) have "hard_break_free 0 cs" by (simp split: if_splits)
      with "2.IH"(2) [OF False _ _ nth] "2.IH"(3) [OF False _ _ nth] show ?thesis
        by (cases "c = CHR ''\<newline>''") simp_all
    qed
  qed
qed

lemma hard_break_no_match:
  assumes "hard_break_free 0 x"
  shows "matches hard_break x i c = []"
proof (rule ccontr)
  assume "matches hard_break x i c \<noteq> []"
  then have "i + 2 < length x \<and> x ! i = CHR '' '' \<and> x ! (i + 1) = CHR '' ''
             \<and> x ! (i + 2) = CHR ''\<newline>''"
    by (auto simp: hard_break_def lit_def is_chr_def split: if_splits)
  with hard_break_free_nth [OF assms] show False by blast
qed

subsection \<open>The passes before the line breaks\<close>

text \<open>
  \<open>quiet x\<close> holds of plain text and of the output of the parser on plain text: the
  conditions of plain text but the one on \<open><\<close>, which may occur before \<open>p\<close> or \<open>/\<close>, as in
  the tags \<open><p>\<close> and \<open></p>\<close>. No expression of the passes before the line-break pass
  matches in such a string.
\<close>

definition lt_before_p :: "string \<Rightarrow> bool" where
  "lt_before_p x = (\<forall>i<length x. x ! i = CHR ''<'' \<longrightarrow>
                      Suc i < length x \<and> (x ! Suc i = CHR ''p'' \<or> x ! Suc i = CHR ''/''))"

definition quiet :: "string \<Rightarrow> bool" where
  "quiet x = ((\<forall>c\<in>set x. \<not> inline_marker c) \<and> markers_not_first True x \<and> no_url False x
               \<and> lt_before_p x)"

lemma lt_before_p_append: "lt_before_p a \<Longrightarrow> lt_before_p b \<Longrightarrow> lt_before_p (a @ b)"
  unfolding lt_before_p_def
proof (intro allI impI)
  fix i
  assume a: "\<forall>i<length a. a ! i = CHR ''<'' \<longrightarrow>
               Suc i < length a \<and> (a ! Suc i = CHR ''p'' \<or> a ! Suc i = CHR ''/'')"
    and b: "\<forall>i<length b. b ! i = CHR ''<'' \<longrightarrow>
               Suc i < length b \<and> (b ! Suc i = CHR ''p'' \<or> b ! Suc i = CHR ''/'')"
    and i: "i < length (a @ b)" and lt: "(a @ b) ! i = CHR ''<''"
  show "Suc i < length (a @ b) \<and> ((a @ b) ! Suc i = CHR ''p'' \<or> (a @ b) ! Suc i = CHR ''/'')"
  proof (cases "i < length a")
    case True
    with a lt have "Suc i < length a \<and> (a ! Suc i = CHR ''p'' \<or> a ! Suc i = CHR ''/'')"
      by (simp add: nth_append)
    then show ?thesis by (auto simp: nth_append)
  next
    case False
    with i lt have "i - length a < length b" "b ! (i - length a) = CHR ''<''"
      by (simp_all add: nth_append)
    with b have "Suc (i - length a) < length b
        \<and> (b ! Suc (i - length a) = CHR ''p'' \<or> b ! Suc (i - length a) = CHR ''/'')"
      by blast
    moreover from False have "Suc i - length a = Suc (i - length a)" by simp
    ultimately show ?thesis using False by (auto simp: nth_append)
  qed
qed

lemma lt_before_p_no_lt: "CHR ''<'' \<notin> set x \<Longrightarrow> lt_before_p x"
  unfolding lt_before_p_def by (metis nth_mem)

lemma header_no_match:
  assumes "markers_not_first True x"
  shows "matches header x i c = []"
proof (rule ccontr)
  assume "matches header x i c \<noteq> []"
  then obtain j c' where bol: "(j, c') \<in> set (matches Bol x i c)"
    and rest: "matches (seqs [Grp 1 (Rep 1 (Some 6) True (Sym (is_chr (CHR ''#'')))),
                  plus (Sym is_space), Grp 2 (plus (Sym is_dot)), Eol]) x j c' \<noteq> []"
    unfolding header_def seqs_def foldr.simps o_apply by (blast dest: seq_match)
  from bol_match [OF bol] have j: "j = i" and start: "i = 0 \<or> is_line_terminator (x ! (i - 1))"
    by simp_all
  from rest obtain k ck where
    "(k, ck) \<in> set (matches (Grp 1 (Rep 1 (Some 6) True (Sym (is_chr (CHR ''#''))))) x j c')"
    unfolding seqs_def foldr.simps o_apply by (blast dest: seq_match)
  then obtain ck' where
    "(k, ck') \<in> set (matches (Rep 1 (Some 6) True (Sym (is_chr (CHR ''#'')))) x j
        (clear_groups [] c'))
     \<or> (k, ck') \<in> set (matches (Rep 1 (Some 6) True (Sym (is_chr (CHR ''#'')))) x j c')"
    by (blast dest: grp_match)
  then have "j + 1 \<le> k \<and> (\<forall>m. j \<le> m \<and> m < k \<longrightarrow> m < length x \<and> is_chr (CHR ''#'') (x ! m))"
    by (blast dest: rep_sym_matches)
  with j have "i < length x" "x ! i = CHR ''#''" by (auto simp: is_chr_def)
  then have "block_marker (x ! i)" by (simp add: block_marker_def)
  moreover have "\<forall>m. i \<le> m \<and> m < i \<longrightarrow> is_space (x ! m)" by auto
  ultimately show False
    using markers_not_first_nth [OF assms start, of i] \<open>i < length x\<close> by blast
qed

lemma blockquote_no_match:
  assumes "markers_not_first True x"
  shows "matches blockquote x i c = []"
proof (rule ccontr)
  assume "matches blockquote x i c \<noteq> []"
  then obtain j c' where bol: "(j, c') \<in> set (matches Bol x i c)"
    and rest: "matches (seqs [lit ''>'', plus (Sym is_space), Grp 1 (plus (Sym is_dot)), Eol])
                 x j c' \<noteq> []"
    unfolding blockquote_def seqs_def foldr.simps o_apply by (blast dest: seq_match)
  from bol_match [OF bol] have j: "j = i" and start: "i = 0 \<or> is_line_terminator (x ! (i - 1))"
    by simp_all
  from rest j have "i < length x \<and> x ! i = CHR ''>''"
    unfolding seqs_def foldr.simps o_apply by (blast dest: lit_match_first)
  then have "i < length x" "block_marker (x ! i)" by (simp_all add: block_marker_def)
  moreover have "\<forall>m. i \<le> m \<and> m < i \<longrightarrow> is_space (x ! m)" by auto
  ultimately show False
    using markers_not_first_nth [OF assms start, of i] by blast
qed

lemma item_no_match:
  assumes ok: "markers_not_first True x"
    and first: "\<And>j c'. matches r x j c' \<noteq> [] \<Longrightarrow> j < length x \<and> block_marker (x ! j)"
  shows "matches (Seq Bol (Seq (Grp 1 (star (Sym is_space))) r)) x i c = []"
proof (rule ccontr)
  assume "matches (Seq Bol (Seq (Grp 1 (star (Sym is_space))) r)) x i c \<noteq> []"
  then obtain j c' where bol: "(j, c') \<in> set (matches Bol x i c)"
    and rest: "matches (Seq (Grp 1 (star (Sym is_space))) r) x j c' \<noteq> []"
    by (blast dest: seq_match)
  from bol_match [OF bol] have j: "j = i" and start: "i = 0 \<or> is_line_terminator (x ! (i - 1))"
    by simp_all
  from rest obtain k ck where
    k: "(k, ck) \<in> set (matches (Grp 1 (star (Sym is_space))) x j c')"
    and r: "matches r x k ck \<noteq> []"
    by (blast dest: seq_match)
  from k obtain ck' where "(k, ck') \<in> set (matches (star (Sym is_space)) x j c')"
    by (blast dest: grp_match)
  from rep_sym_matches [OF this] j
  have ik: "i \<le> k" and ws: "\<forall>m. i \<le> m \<and> m < k \<longrightarrow> is_space (x ! m)" by simp_all
  from first [OF r] have "k < length x" "block_marker (x ! k)" by simp_all
  from markers_not_first_nth [OF ok start ik this(1) ws this(2)] show False .
qed

lemma unordered_item_no_match:
  assumes "markers_not_first True x"
  shows "matches unordered_item x i c = []"
proof -
  have eq: "unordered_item = Seq Bol (Seq (Grp 1 (star (Sym is_space)))
          (seqs [lit ''-'', plus (Sym is_space), Grp 2 (plus (Sym is_dot)), Eol]))"
    by (simp add: unordered_item_def seqs_def)
  have "j < length x \<and> block_marker (x ! j)"
    if "matches (seqs [lit ''-'', plus (Sym is_space), Grp 2 (plus (Sym is_dot)), Eol])
          x j c' \<noteq> []" for j c'
  proof -
    from that have "j < length x \<and> x ! j = CHR ''-''"
      unfolding seqs_def foldr.simps o_apply by (blast dest: lit_match_first)
    then show ?thesis by (simp add: block_marker_def)
  qed
  then show ?thesis unfolding eq by (rule item_no_match [OF assms])
qed

lemma ordered_item_no_match:
  assumes "markers_not_first True x"
  shows "matches ordered_item x i c = []"
proof -
  have eq: "ordered_item = Seq Bol (Seq (Grp 1 (star (Sym is_space)))
          (seqs [plus (Sym is_digit), lit ''.'', plus (Sym is_space),
                 Grp 2 (plus (Sym is_dot)), Eol]))"
    by (simp add: ordered_item_def seqs_def)
  have "j < length x \<and> block_marker (x ! j)"
    if "matches (seqs [plus (Sym is_digit), lit ''.'', plus (Sym is_space),
                 Grp 2 (plus (Sym is_dot)), Eol]) x j c' \<noteq> []" for j c'
  proof -
    from that obtain k ck where "(k, ck) \<in> set (matches (plus (Sym is_digit)) x j c')"
      unfolding seqs_def foldr.simps o_apply by (blast dest: seq_match)
    from rep_sym_matches [OF this] have "j < length x \<and> is_digit (x ! j)" by simp
    then show ?thesis by (simp add: block_marker_def)
  qed
  then show ?thesis unfolding eq by (rule item_no_match [OF assms])
qed

lemma auto_link_no_match:
  assumes "no_url False x"
  shows "matches auto_link x i c = []"
proof (rule ccontr)
  assume "matches auto_link x i c \<noteq> []"
  then have "matches (seqs [lit ''http'', opt (lit ''s''), lit ''://'',
      plus (Sym (\<lambda>c. \<not> (is_space c \<or> c = CHR ''<'')))]) x i c \<noteq> []"
    by (simp add: auto_link_def)
  then obtain j c' where "matches (seqs [opt (lit ''s''), lit ''://'',
      plus (Sym (\<lambda>c. \<not> (is_space c \<or> c = CHR ''<'')))]) x j c' \<noteq> []"
    unfolding seqs_def foldr.simps o_apply by (blast dest: seq_match)
  then obtain k ck where "matches (seqs [lit ''://'',
      plus (Sym (\<lambda>c. \<not> (is_space c \<or> c = CHR ''<'')))]) x k ck \<noteq> []"
    unfolding seqs_def foldr.simps o_apply by (blast dest: seq_match)
  then have "Suc k < length x \<and> x ! k = CHR '':'' \<and> x ! Suc k = CHR ''/''"
    unfolding seqs_def foldr.simps o_apply by (blast dest: lit_match_pair)
  with no_url_nth [OF assms] show False by blast
qed

lemma join_split_acc: "join (split_acc sep acc s) sep = acc @ s"
proof (induction sep acc s rule: split_acc.induct)
  case (1 sep acc)
  show ?case by simp
next
  case (2 sep acc x xs)
  show ?case
  proof (cases "sep \<noteq> [] \<and> startsWith (x # xs) sep")
    case True
    then have "sep @ drop (length sep) (x # xs) = x # xs"
      by (metis append_take_drop_id startsWith_def)
    with True 2 show ?thesis
      by (simp add: join_Cons split_acc_not_Nil del: join.simps)
  next
    case False
    with 2 show ?thesis by auto
  qed
qed

lemma join_split: "join (split s sep) sep = s"
  by (simp add: split_def join_split_acc)

lemma split_acc_set:
  "b \<in> set (split_acc sep acc s) \<Longrightarrow> set b \<subseteq> set acc \<union> set s"
proof (induction sep acc s arbitrary: b rule: split_acc.induct)
  case (1 sep acc)
  then show ?case by simp
next
  case (2 sep acc x xs)
  show ?case
  proof (cases "sep \<noteq> [] \<and> startsWith (x # xs) sep")
    case True
    with "2.prems" consider "b = acc" | "b \<in> set (split_acc sep [] (drop (length sep) (x # xs)))"
      by auto
    then show ?thesis
    proof cases
      case 1
      then show ?thesis by auto
    next
      case 2
      from "2.IH"(1) [OF True this] have "set b \<subseteq> set (drop (length sep) (x # xs))" by simp
      also have "\<dots> \<subseteq> set (x # xs)" by (rule set_drop_subset)
      finally show ?thesis by auto
    qed
  next
    case False
    with "2.prems" have "b \<in> set (split_acc sep (acc @ [x]) xs)" by auto
    from "2.IH"(2) [OF False this] show ?thesis by auto
  qed
qed

lemma split_set: "b \<in> set (split s sep) \<Longrightarrow> set b \<subseteq> set s"
  using split_acc_set [of b sep "[]" s] by (simp add: split_def)

lemma split_acc_sub:
  "b \<in> set (split_acc sep acc s) \<Longrightarrow> \<exists>u v. acc @ s = u @ b @ v"
proof (induction sep acc s arbitrary: b rule: split_acc.induct)
  case (1 sep acc)
  then have "acc @ [] = [] @ b @ []" by simp
  then show ?case by blast
next
  case (2 sep acc x xs)
  show ?case
  proof (cases "sep \<noteq> [] \<and> startsWith (x # xs) sep")
    case True
    with "2.prems" consider "b = acc" | "b \<in> set (split_acc sep [] (drop (length sep) (x # xs)))"
      by auto
    then show ?thesis
    proof cases
      case 1
      then have "acc @ x # xs = [] @ b @ (x # xs)" by simp
      then show ?thesis by blast
    next
      case 2
      from "2.IH"(1) [OF True this] obtain u v where "drop (length sep) (x # xs) = u @ b @ v"
        by auto
      then have "acc @ x # xs = (acc @ take (length sep) (x # xs) @ u) @ b @ v"
        by (metis append.assoc append_take_drop_id)
      then show ?thesis by blast
    qed
  next
    case False
    with "2.prems" have "b \<in> set (split_acc sep (acc @ [x]) xs)" by auto
    from "2.IH"(2) [OF False this] show ?thesis by simp
  qed
qed

lemma split_sub: "b \<in> set (split s sep) \<Longrightarrow> \<exists>u v. s = u @ b @ v"
  using split_acc_sub [of b sep "[]" s] by (simp add: split_def)

lemma tagged_item_no_match:
  assumes "lt_before_p x" and "x = u @ line @ v"
  shows "listMatch_of line = None"
proof -
  have "matches tagged_item line i c = []" for i c
  proof (rule ccontr)
    assume "matches tagged_item line i c \<noteq> []"
    then have "Suc i < length line \<and> line ! i = CHR ''<'' \<and> line ! Suc i = CHR ''l''"
      unfolding tagged_item_def seqs_def foldr.simps o_apply by (blast dest: lit_match_pair)
    with assms(2) have "length u + i < length x" "x ! (length u + i) = CHR ''<''"
      "x ! Suc (length u + i) = CHR ''l''"
      by (simp_all add: nth_append)
    with assms(1) show False unfolding lt_before_p_def by fastforce
  qed
  then have "exec tagged_item line 0 = None" by (rule exec_no_match)
  then show ?thesis by (simp add: listMatch_of_def)
qed

lemma wrap_loop_copies:
  assumes "\<forall>line\<in>set lines. listMatch_of line = None"
  shows "wrap_loop \<lparr>result = res, inList = False, listStack = []\<rparr> lines =
           Inr \<lparr>result = res @ map Copied lines, inList = False, listStack = []\<rparr>"
  using assms
  by (induction lines arbitrary: res) (simp_all add: wrap_line_def wrap_other_def)

lemma wrapListItems_quiet:
  assumes "lt_before_p x"
  shows "wrapListItems x = Inr x"
proof -
  have "\<forall>line\<in>set (split x ''\<newline>''). listMatch_of line = None"
    using assms split_sub by (blast intro: tagged_item_no_match)
  from wrap_loop_copies [OF this, of "[]"]
  have "wrap_lines (split x ''\<newline>'') = Inr (map Copied (split x ''\<newline>''))"
    by (simp add: wrap_lines_def close_all_def)
  moreover have "map render (map Copied ls) = ls" for ls
    by (induction ls) auto
  ultimately show ?thesis by (simp add: wrapListItems_def join_split)
qed

lemma pipeline_quiet:
  assumes "quiet x"
  shows "pipeline x = Inr (trim (parseParagraphs (parseLineBreaks x)))"
proof -
  from assms have chars: "\<forall>c\<in>set x. \<not> inline_marker c" and first: "markers_not_first True x"
    and url: "no_url False x" and lt: "lt_before_p x"
    by (simp_all add: quiet_def)
  have tick: "\<forall>c\<in>set x. \<not> (c = CHR ''`'')" and bracket: "\<forall>c\<in>set x. \<not> (c = CHR ''['')"
    and star: "\<forall>c\<in>set x. \<not> (c = CHR ''*'')" and under: "\<forall>c\<in>set x. \<not> (c = CHR ''_'')"
    and tilde: "\<forall>c\<in>set x. \<not> (c = CHR ''~'')"
    using chars by (auto simp: inline_marker_def)
  have "replace fence_with_language f x = x" for f
    by (rule replace_needs [OF _ tick]) (simp add: fence_with_language_def needs_seqs needs_lit)
  moreover have "replace fence_plain f x = x" for f
    by (rule replace_needs [OF _ tick]) (simp add: fence_plain_def needs_seqs needs_lit)
  ultimately have 1: "parseCodeBlocks x = x" by (simp add: parseCodeBlocks_def)
  have 2: "parseInlineCode x = x" unfolding parseInlineCode_def
    by (rule replace_needs [OF _ tick]) (simp add: inline_code_def needs_seqs needs_lit)
  have 3: "parseHeaders x = x" unfolding parseHeaders_def
    by (rule replace_no_match) (rule header_no_match [OF first])
  have 4: "parseBlockquotes x = x" unfolding parseBlockquotes_def
    by (rule replace_no_match) (rule blockquote_no_match [OF first])
  have "replace unordered_item f x = x" for f
    by (rule replace_no_match) (rule unordered_item_no_match [OF first])
  moreover have "replace ordered_item f x = x" for f
    by (rule replace_no_match) (rule ordered_item_no_match [OF first])
  ultimately have 5: "parseLists x = Inr x"
    using wrapListItems_quiet [OF lt] by (simp add: parseLists_def)
  have "replace link_with_title f x = x" "replace link_plain f x = x"
    "replace image_with_title f x = x" "replace image_plain f x = x" for f
    by (rule replace_needs [OF _ bracket],
        simp add: link_with_title_def link_plain_def image_with_title_def image_plain_def
          needs_seqs needs_lit)+
  moreover have "replace auto_link f x = x" for f
    by (rule replace_no_match) (rule auto_link_no_match [OF url])
  ultimately have 6: "parseImages (parseLinks x) = x"
    by (simp add: parseLinks_def parseImages_def)
  have "replace (delimited ''**'' (CHR ''*'')) f x = x"
    "replace (delimited ''*'' (CHR ''*'')) f x = x" for f
    by (rule replace_needs [OF _ star], simp add: delimited_def needs_seqs needs_lit)+
  moreover have "replace (delimited ''__'' (CHR ''_'')) f x = x"
    "replace (delimited ''_'' (CHR ''_'')) f x = x" for f
    by (rule replace_needs [OF _ under], simp add: delimited_def needs_seqs needs_lit)+
  moreover have "replace (delimited ''~~'' (CHR ''~'')) f x = x" for f
    by (rule replace_needs [OF _ tilde]) (simp add: delimited_def needs_seqs needs_lit)
  ultimately have 7: "parseEmphasis x = x" by (simp add: parseEmphasis_def)
  from 1 2 3 4 5 6 7 show ?thesis by (simp add: pipeline_def)
qed

subsection \<open>The line-break pass on plain text\<close>

lemma splice_newline_runs:
  fixes ok :: "'q \<Rightarrow> string \<Rightarrow> bool" and after :: "'q \<Rightarrow> string \<Rightarrow> 'q"
  assumes app: "\<And>q a b. ok q (a @ b) = (ok q a \<and> ok (after q a) b)"
    and nl: "\<And>q m y. 0 < m \<Longrightarrow> ok q (replicate m (CHR ''\<newline>'') @ y) = (P q \<and> ok q0 y)"
  shows "chain k ms (length s) \<Longrightarrow>
     \<forall>(i, j, c)\<in>set ms. \<exists>m\<ge>2. substring s i j = replicate m (CHR ''\<newline>'') \<Longrightarrow>
     ok q (drop k s) \<Longrightarrow>
     ok q (splice s k ms (\<lambda>m c. ''\<newline>\<newline>''))"
proof (induction ms arbitrary: k q)
  case Nil
  then show ?case by simp
next
  case (Cons m ms)
  obtain i j c where m: "m = (i, j, c)" by (cases m)
  with Cons.prems have b: "k \<le> i" "i \<le> j" "j \<le> length s" and ch: "chain j ms (length s)"
    by auto
  from Cons.prems(2) m obtain l where l: "2 \<le> l" "substring s i j = replicate l (CHR ''\<newline>'')"
    by auto
  have "drop k s = substring s k i @ substring s i j @ drop j s"
    using substring_drop [OF b(1), of s] substring_drop [OF b(2), of s] by simp
  with Cons.prems(3) l(2)
  have seg: "ok q (substring s k i)"
    and run: "ok (after q (substring s k i)) (replicate l (CHR ''\<newline>'') @ drop j s)"
    by (simp_all add: app)
  from run l(1) have p: "P (after q (substring s k i))" and rest: "ok q0 (drop j s)"
    by (simp_all add: nl)
  from Cons.IH [OF ch _ rest] Cons.prems(2)
  have "ok q0 (splice s j ms (\<lambda>m c. ''\<newline>\<newline>''))" by auto
  with p have "ok (after q (substring s k i))
      (replicate 2 (CHR ''\<newline>'') @ splice s j ms (\<lambda>m c. ''\<newline>\<newline>''))"
    by (simp only: nl [of 2] zero_less_numeral simp_thms)
  moreover have "replicate 2 (CHR ''\<newline>'') = ''\<newline>\<newline>''" by (simp add: numeral_2_eq_2)
  ultimately show ?case using seg m by (simp add: app)
qed

lemma markers_not_first_newlines:
  "0 < m \<Longrightarrow> markers_not_first b (replicate m (CHR ''\<newline>'') @ y) = (True \<and> markers_not_first True y)"
proof (induction m arbitrary: b)
  case 0
  then show ?case by simp
next
  case (Suc m)
  have "is_line_terminator (CHR ''\<newline>'')" by (simp add: is_line_terminator_def code_def)
  with Suc.IH [of True] show ?case by (cases m) simp_all
qed

lemma no_url_newlines:
  "0 < m \<Longrightarrow> no_url b (replicate m (CHR ''\<newline>'') @ y) = (True \<and> no_url False y)"
proof (induction m arbitrary: b)
  case 0
  then show ?case by simp
next
  case (Suc m)
  with Suc.IH [of False] show ?case by (cases m) simp_all
qed

lemma parseLineBreaks_plain:
  assumes "hard_break_free 0 x"
  shows "parseLineBreaks x = replace blank_lines (\<lambda>m c. ''\<newline>\<newline>'') x"
    and "hard_break_free 0 (parseLineBreaks x)"
    and "set (parseLineBreaks x) \<subseteq> set x \<union> {CHR ''\<newline>''}"
    and "markers_not_first True x \<Longrightarrow> markers_not_first True (parseLineBreaks x)"
    and "no_url False x \<Longrightarrow> no_url False (parseLineBreaks x)"
proof -
  let ?ms = "all_matches blank_lines x 0"
  let ?T = "splice x 0 ?ms (\<lambda>m c. ''\<newline>\<newline>'')"
  have "replace hard_break f x = x" for f
    by (rule replace_no_match) (rule hard_break_no_match [OF assms])
  then show 1: "parseLineBreaks x = replace blank_lines (\<lambda>m c. ''\<newline>\<newline>'') x"
    by (simp add: parseLineBreaks_def)
  then have T: "parseLineBreaks x = ?T" by (simp add: replace_def)
  have ch: "chain 0 ?ms (length x)" by (rule all_matches_chain)
  have runs: "\<forall>(i, j, c)\<in>set ?ms. \<exists>m\<ge>2. substring x i j = replicate m (CHR ''\<newline>'')"
    using blank_lines_match [of _ _ _ x 0] by auto
  have "hard_break_free 0 ?T"
    using assms
    by (intro splice_newline_runs [where ok = hard_break_free and after = spaces_after
          and P = "\<lambda>n. n < 2" and ?q0.0 = 0,
          OF hard_break_free_append hard_break_free_newlines ch runs]) simp_all
  with T show "hard_break_free 0 (parseLineBreaks x)" by simp
  have "set ?T \<subseteq> set x \<union> {CHR ''\<newline>''}"
    by (rule set_splice) simp
  with T show "set (parseLineBreaks x) \<subseteq> set x \<union> {CHR ''\<newline>''}" by simp
  show "markers_not_first True (parseLineBreaks x)" if "markers_not_first True x"
  proof -
    have "markers_not_first True ?T"
      using that
      by (intro splice_newline_runs [where ok = markers_not_first and after = blank_after
            and P = "\<lambda>b. True" and ?q0.0 = True,
            OF markers_not_first_append markers_not_first_newlines ch runs]) simp_all
    with T show ?thesis by simp
  qed
  show "no_url False (parseLineBreaks x)" if "no_url False x"
  proof -
    have "no_url False ?T"
      using that
      by (intro splice_newline_runs [where ok = no_url and after = colon_after
            and P = "\<lambda>b. True" and ?q0.0 = False,
            OF no_url_append no_url_newlines ch runs]) simp_all
    with T show ?thesis by simp
  qed
qed

subsection \<open>Runs of line breaks and the pieces of a split\<close>

fun runs_below :: "nat \<Rightarrow> nat \<Rightarrow> string \<Rightarrow> bool" where
  "runs_below lim n [] = True"
| "runs_below lim n (c # cs) =
     (if c = CHR ''\<newline>'' then Suc n < lim \<and> runs_below lim (Suc n) cs
      else runs_below lim 0 cs)"

fun newlines_after :: "nat \<Rightarrow> string \<Rightarrow> nat" where
  "newlines_after n [] = n"
| "newlines_after n (c # cs) =
     (if c = CHR ''\<newline>'' then newlines_after (Suc n) cs else newlines_after 0 cs)"

lemma runs_below_append:
  "runs_below lim n (a @ b) = (runs_below lim n a \<and> runs_below lim (newlines_after n a) b)"
  by (induction lim n a rule: runs_below.induct) auto

lemma runs_below_mono:
  "runs_below lim n x \<Longrightarrow> lim \<le> lim' \<Longrightarrow> m \<le> n \<Longrightarrow> runs_below lim' m x"
  by (induction lim n x arbitrary: m rule: runs_below.induct) (auto split: if_splits)

lemma runs_below_replicate:
  "runs_below lim n (replicate m (CHR ''\<newline>'') @ b) \<Longrightarrow> m = 0 \<or> n + m < lim"
proof (induction m arbitrary: n)
  case 0
  show ?case by simp
next
  case (Suc m)
  from Suc.prems have "Suc n < lim" and "runs_below lim (Suc n) (replicate m (CHR ''\<newline>'') @ b)"
    by simp_all
  from Suc.IH [OF this(2)] this(1) show ?case by auto
qed

lemma newlines_after_last:
  "x \<noteq> [] \<Longrightarrow> last x \<noteq> CHR ''\<newline>'' \<Longrightarrow> newlines_after n x = 0"
  by (induction n x rule: newlines_after.induct) (auto split: if_splits)

lemma spaces_after_last:
  "x \<noteq> [] \<Longrightarrow> last x \<noteq> CHR '' '' \<Longrightarrow> spaces_after n x = 0"
  by (induction n x rule: spaces_after.induct) (auto split: if_splits)

lemma runs_below_hd:
  "x \<noteq> [] \<Longrightarrow> hd x \<noteq> CHR ''\<newline>'' \<Longrightarrow> runs_below lim n x = runs_below lim 0 x"
  by (cases x) auto

lemma hard_break_free_hd:
  "x \<noteq> [] \<Longrightarrow> hd x \<noteq> CHR ''\<newline>'' \<Longrightarrow> hd x \<noteq> CHR '' '' \<Longrightarrow>
     hard_break_free n x = hard_break_free 0 x"
  by (cases x) auto

lemma runs_below_sub: "runs_below lim 0 (u @ b @ v) \<Longrightarrow> runs_below lim 0 b"
  by (auto simp: runs_below_append intro: runs_below_mono)

lemma hard_break_free_sub: "hard_break_free 0 (u @ b @ v) \<Longrightarrow> hard_break_free 0 b"
  by (auto simp: hard_break_free_append intro: hard_break_free_mono)

lemma split_acc_start:
  "sep = ''\<newline>\<newline>'' \<Longrightarrow> b \<in> set (split_acc sep acc s) \<Longrightarrow>
     \<exists>u v. acc @ s = u @ b @ v \<and> (u = [] \<or> u \<noteq> [] \<and> last u = CHR ''\<newline>'')"
proof (induction sep acc s arbitrary: b rule: split_acc.induct)
  case (1 sep acc)
  then have "acc @ [] = [] @ b @ []" by simp
  then show ?case by blast
next
  case (2 sep acc x xs)
  note sep = \<open>sep = ''\<newline>\<newline>''\<close>
  show ?case
  proof (cases "sep \<noteq> [] \<and> startsWith (x # xs) sep")
    case True
    with "2.prems" consider "b = acc"
      | "b \<in> set (split_acc sep [] (drop (length sep) (x # xs)))"
      by auto
    then show ?thesis
    proof cases
      case 1
      then have "acc @ x # xs = [] @ b @ (x # xs)" by simp
      then show ?thesis by blast
    next
      case 2
      from "2.IH"(1) [OF True sep 2] obtain u v where
        uv: "drop (length sep) (x # xs) = u @ b @ v"
        and u: "u = [] \<or> u \<noteq> [] \<and> last u = CHR ''\<newline>''"
        by auto
      from True have "x # xs = sep @ drop (length sep) (x # xs)"
        by (simp add: startsWith_def) (metis append_take_drop_id)
      with uv have "acc @ x # xs = (acc @ sep @ u) @ b @ v" by simp
      moreover from u sep have "acc @ sep @ u \<noteq> [] \<and> last (acc @ sep @ u) = CHR ''\<newline>''"
        by auto
      ultimately show ?thesis by blast
    qed
  next
    case False
    with "2.prems" have "b \<in> set (split_acc sep (acc @ [x]) xs)" by auto
    from "2.IH"(2) [OF False sep this] show ?thesis by simp
  qed
qed

lemma split_start:
  "b \<in> set (split s ''\<newline>\<newline>'') \<Longrightarrow>
     \<exists>u v. s = u @ b @ v \<and> (u = [] \<or> u \<noteq> [] \<and> last u = CHR ''\<newline>'')"
  using split_acc_start [OF refl, of b "[]" s] by (simp add: split_def)

lemma split_acc_blank_line_free:
  "sep = ''\<newline>\<newline>'' \<Longrightarrow> runs_below 2 0 (acc @ take 1 s) \<Longrightarrow>
     b \<in> set (split_acc sep acc s) \<Longrightarrow> runs_below 2 0 b"
proof (induction sep acc s arbitrary: b rule: split_acc.induct)
  case (1 sep acc)
  then show ?case by simp
next
  case (2 sep acc x xs)
  note sep = \<open>sep = ''\<newline>\<newline>''\<close>
  show ?case
  proof (cases "sep \<noteq> [] \<and> startsWith (x # xs) sep")
    case True
    with "2.prems" consider "b = acc"
      | "b \<in> set (split_acc sep [] (drop (length sep) (x # xs)))"
      by auto
    then show ?thesis
    proof cases
      case 1
      with "2.prems"(2) show ?thesis by (simp add: runs_below_append)
    next
      case 2
      have "runs_below 2 0 ([] @ take 1 (drop (length sep) (x # xs)))"
        by (cases "drop (length sep) (x # xs)") simp_all
      from "2.IH"(1) [OF True sep this 2] show ?thesis .
    qed
  next
    case False
    with "2.prems" have mem: "b \<in> set (split_acc sep (acc @ [x]) xs)" by auto
    from "2.prems"(2) have acc: "runs_below 2 0 (acc @ [x])" by simp
    have "runs_below 2 0 ((acc @ [x]) @ take 1 xs)"
    proof (cases xs)
      case Nil
      with acc show ?thesis by simp
    next
      case (Cons y ys)
      from False Cons sep have "\<not> (x = CHR ''\<newline>'' \<and> y = CHR ''\<newline>'')"
        by (auto simp: startsWith_def)
      with acc Cons show ?thesis
        by (auto simp: runs_below_append [of _ _ "acc @ [x]"] runs_below_append [of _ _ acc]
            split: if_splits)
    qed
    from "2.IH"(2) [OF False sep this mem] show ?thesis .
  qed
qed

lemma split_blank_line_free:
  "b \<in> set (split s ''\<newline>\<newline>'') \<Longrightarrow> runs_below 2 0 b"
proof -
  have "runs_below 2 0 ([] @ take 1 s)" by (cases s) simp_all
  then show "b \<in> set (split s ''\<newline>\<newline>'') \<Longrightarrow> runs_below 2 0 b"
    unfolding split_def by (rule split_acc_blank_line_free [OF refl])
qed

subsection \<open>Splitting what was joined; trimming\<close>

lemma split_acc_block:
  "runs_below 2 0 b \<Longrightarrow> b = [] \<or> last b \<noteq> CHR ''\<newline>'' \<Longrightarrow>
     split_acc ''\<newline>\<newline>'' acc (b @ rest) = split_acc ''\<newline>\<newline>'' (acc @ b) rest"
proof (induction b arbitrary: acc)
  case Nil
  show ?case by simp
next
  case (Cons x b)
  have no: "\<not> startsWith ((x # b) @ rest) ''\<newline>\<newline>''"
  proof (cases b)
    case Nil
    with Cons.prems(2) show ?thesis by (simp add: startsWith_def)
  next
    case (Cons y ys)
    with Cons.prems(1) show ?thesis by (auto simp: startsWith_def split: if_splits)
  qed
  from Cons.prems have "runs_below 2 0 b" "b = [] \<or> last b \<noteq> CHR ''\<newline>''"
    by (auto split: if_splits intro: runs_below_mono)
  from Cons.IH [OF this, of "acc @ [x]"] no show ?case by simp
qed

lemma split_acc_separator:
  "split_acc ''\<newline>\<newline>'' acc (''\<newline>\<newline>'' @ rest) = acc # split_acc ''\<newline>\<newline>'' [] rest"
  by (simp add: startsWith_def)

lemma split_join_blocks:
  assumes "B \<noteq> []"
    and "\<forall>b\<in>set B. runs_below 2 0 b \<and> b \<noteq> [] \<and> last b \<noteq> CHR ''\<newline>''"
  shows "split (join B ''\<newline>\<newline>'') ''\<newline>\<newline>'' = B"
  using assms
proof (induction B)
  case Nil
  then show ?case by simp
next
  case (Cons b B)
  then have b: "runs_below 2 0 b" "b = [] \<or> last b \<noteq> CHR ''\<newline>''" by auto
  show ?case
  proof (cases "B = []")
    case True
    with split_acc_block [OF b, of "[]" "[]"] show ?thesis by (simp add: split_def)
  next
    case False
    with Cons have IH: "split_acc ''\<newline>\<newline>'' [] (join B ''\<newline>\<newline>'') = B"
      by (simp add: split_def)
    from False have "join (b # B) ''\<newline>\<newline>'' = b @ ''\<newline>\<newline>'' @ join B ''\<newline>\<newline>''"
      by (rule join_Cons)
    with split_acc_block [OF b, of "[]" "''\<newline>\<newline>'' @ join B ''\<newline>\<newline>''"]
      split_acc_separator [of b "join B ''\<newline>\<newline>''"] IH
    show ?thesis by (simp add: split_def)
  qed
qed

lemma trim_sub: "\<exists>v. x = takeWhile is_space x @ trim x @ v"
proof -
  let ?y = "dropWhile is_space x"
  have "rev ?y = takeWhile is_space (rev ?y) @ dropWhile is_space (rev ?y)" by simp
  then have "?y = rev (dropWhile is_space (rev ?y)) @ rev (takeWhile is_space (rev ?y))"
    by (metis rev_append rev_rev_ident)
  then have "x = takeWhile is_space x @ trim x @ rev (takeWhile is_space (rev ?y))"
    by (metis takeWhile_dropWhile_id trim_def)
  then show ?thesis by blast
qed

lemma trim_hd_last:
  assumes "trim x \<noteq> []"
  shows "\<not> is_space (hd (trim x))" and "\<not> is_space (last (trim x))"
proof -
  from trim_no_leading_space [of x] assms show "\<not> is_space (hd (trim x))"
    by (cases "trim x") (auto split: if_splits)
  from trim_no_trailing_space [of x] assms show "\<not> is_space (last (trim x))"
    by (cases "rev (trim x)") (auto split: if_splits simp: last_rev [symmetric] simp del: last_rev)
qed

lemma trim_id:
  assumes "x \<noteq> []" "\<not> is_space (hd x)" "\<not> is_space (last x)"
  shows "trim x = x"
proof -
  from assms have 1: "dropWhile is_space x = x" by (cases x) auto
  from assms have "rev x \<noteq> []" "\<not> is_space (hd (rev x))" by (simp_all add: hd_rev)
  then have "dropWhile is_space (rev x) = rev x" by (cases "rev x") auto
  with 1 show ?thesis by (simp add: trim_def)
qed

subsection \<open>The blocks of the paragraph pass\<close>

definition piece_ok :: "string \<Rightarrow> bool" where
  "piece_ok x = ((\<forall>c\<in>set x. \<not> inline_marker c \<and> c \<noteq> CHR ''<'') \<and> markers_not_first True x
                 \<and> no_url False x \<and> runs_below 2 0 x \<and> hard_break_free 0 x)"

definition block_ok :: "string \<Rightarrow> bool" where
  "block_ok b = (b \<noteq> [] \<and> \<not> is_space (hd b) \<and> \<not> is_space (last b) \<and> isBlockElement b
                 \<and> runs_below 2 0 b \<and> hard_break_free 0 b \<and> quiet b)"

definition joined_ok :: "string \<Rightarrow> bool" where
  "joined_ok x = (x \<noteq> [] \<and> \<not> is_space (hd x) \<and> \<not> is_space (last x) \<and> quiet x
                  \<and> hard_break_free 0 x \<and> runs_below 3 0 x)"

lemma lt_before_p_tags: "lt_before_p ''<p>''" "lt_before_p ''</p>''"
  by (auto simp: lt_before_p_def less_Suc_eq numeral_3_eq_3 numeral_Bit0 nth_Cons')

lemma wrapped_block_element: "isBlockElement (''<p>'' @ y)"
  by (simp add: isBlockElement_def blockTags_def startsWith_def)

lemma quiet_wrapped:
  assumes "quiet y"
  shows "quiet (''<p>'' @ y @ ''</p>'')"
proof -
  from assms have y: "\<forall>c\<in>set y. \<not> inline_marker c" "markers_not_first True y"
    "no_url False y" "lt_before_p y"
    by (simp_all add: quiet_def)
  have tag: "\<not> is_line_terminator (CHR ''<'')" "\<not> is_space (CHR ''<'')"
    "\<not> block_marker (CHR ''<'')" "\<not> is_line_terminator (CHR ''p'')"
    "\<not> is_space (CHR ''p'')" "\<not> is_line_terminator (CHR ''>'')" "\<not> is_space (CHR ''>'')"
    "\<not> is_line_terminator (CHR ''/'')" "\<not> is_space (CHR ''/'')"
    by (simp_all add: is_line_terminator_def is_space_def block_marker_def is_digit_def code_def)
  have "\<not> inline_marker (CHR ''<'')" "\<not> inline_marker (CHR ''>'')"
    "\<not> inline_marker (CHR ''p'')" "\<not> inline_marker (CHR ''/'')"
    by (simp_all add: inline_marker_def)
  with y(1) have 1: "\<forall>c\<in>set (''<p>'' @ y @ ''</p>''). \<not> inline_marker c" by auto
  have "markers_not_first b ''</p>''" for b by (simp add: tag)
  then have "markers_not_first (blank_after False y) ''</p>''" .
  with markers_not_first_mono [OF y(2), of False]
  have "markers_not_first False (y @ ''</p>'')" by (simp only: markers_not_first_append simp_thms)
  then have 2: "markers_not_first True (''<p>'' @ y @ ''</p>'')" by (simp add: tag)
  have "no_url b ''</p>''" for b by simp
  then have "no_url (colon_after False y) ''</p>''" .
  with y(3) have "no_url False (y @ ''</p>'')" by (simp only: no_url_append simp_thms)
  then have 3: "no_url False (''<p>'' @ y @ ''</p>'')" by simp
  have 4: "lt_before_p (''<p>'' @ y @ ''</p>'')"
    by (intro lt_before_p_append lt_before_p_tags y(4))
  from 1 2 3 4 show ?thesis by (simp add: quiet_def)
qed

lemma block_of_piece:
  assumes "piece_ok x" and "trim x \<noteq> []"
  shows "block_ok (if isBlockElement (trim x) then trim x else ''<p>'' @ trim x @ ''</p>'')"
proof -
  let ?y = "trim x"
  obtain v where x: "x = takeWhile is_space x @ ?y @ v" using trim_sub by blast
  from assms(1) have px: "\<forall>c\<in>set x. \<not> inline_marker c \<and> c \<noteq> CHR ''<''"
    "markers_not_first True x" "no_url False x" "runs_below 2 0 x" "hard_break_free 0 x"
    by (simp_all add: piece_ok_def)
  from x have "set ?y \<subseteq> set x" by (metis Un_iff set_append subsetI)
  with px(1) have chars: "\<forall>c\<in>set ?y. \<not> inline_marker c" and nolt: "CHR ''<'' \<notin> set ?y"
    by auto
  have "\<forall>c\<in>set (takeWhile is_space x). is_space c" by (metis set_takeWhileD)
  from markers_not_first_spaces [OF this, of "?y @ v"] px(2) x
  have "markers_not_first True (?y @ v)" by simp
  then have first: "markers_not_first True ?y" by (simp add: markers_not_first_append)
  from px(3) x have url: "no_url False ?y" by (metis no_url_sub)
  from px(4) x have runs: "runs_below 2 0 ?y" by (metis runs_below_sub)
  from px(5) x have hbf: "hard_break_free 0 ?y" by (metis hard_break_free_sub)
  note ends = trim_hd_last [OF assms(2)]
  have lt: "lt_before_p ?y" using nolt by (rule lt_before_p_no_lt)
  from chars first url lt have q: "quiet ?y" by (simp add: quiet_def)
  show ?thesis
  proof (cases "isBlockElement ?y")
    case True
    with assms(2) ends runs hbf q show ?thesis by (simp add: block_ok_def)
  next
    case False
    have "isBlockElement (''<p>'' @ ?y @ ''</p>'')" by (rule wrapped_block_element)
    moreover have "\<not> is_space (CHR ''<'')" "\<not> is_space (CHR ''>'')"
      by (simp_all add: is_space_def code_def)
    moreover have "runs_below 2 0 (''<p>'' @ ?y @ ''</p>'')"
      using runs by (simp add: runs_below_append)
    moreover have "hard_break_free 0 (''<p>'' @ ?y @ ''</p>'')"
      using hbf by (simp add: hard_break_free_append)
    ultimately show ?thesis using False quiet_wrapped [OF q] by (simp add: block_ok_def)
  qed
qed

lemma paragraphs_blocks:
  "\<forall>x\<in>set ps. piece_ok x \<Longrightarrow> \<forall>b\<in>set (paragraphs_of ps). block_ok b"
proof (induction ps)
  case Nil
  show ?case by simp
next
  case (Cons x ps)
  then have IH: "\<forall>b\<in>set (paragraphs_of ps). block_ok b" and x: "piece_ok x" by simp_all
  show ?case
  proof (cases "trim x = []")
    case True
    with IH show ?thesis by (simp add: Let_def)
  next
    case False
    from block_of_piece [OF x False] IH False show ?thesis by (simp add: Let_def)
  qed
qed

lemma paragraphs_of_blocks: "\<forall>b\<in>set B. block_ok b \<Longrightarrow> paragraphs_of B = B"
proof (induction B)
  case Nil
  show ?case by simp
next
  case (Cons b B)
  then have "block_ok b" and IH: "paragraphs_of B = B" by simp_all
  then have "trim b = b" "b \<noteq> []" "isBlockElement b"
    by (simp_all add: block_ok_def trim_id)
  with IH show ?case by (simp add: Let_def)
qed

subsection \<open>The second run\<close>

lemma not_space_chars:
  "\<not> is_space c \<Longrightarrow> c \<noteq> CHR ''\<newline>'' \<and> c \<noteq> CHR '' ''"
  by (auto simp: is_space_def code_def)

lemma joined_block: "block_ok b \<Longrightarrow> joined_ok b"
  by (auto simp: block_ok_def joined_ok_def intro: runs_below_mono)

lemma joined_step:
  assumes b: "block_ok b" and r: "joined_ok rest"
  shows "joined_ok (b @ ''\<newline>\<newline>'' @ rest)"
proof -
  from b have b': "b \<noteq> []" "\<not> is_space (hd b)" "\<not> is_space (last b)" "runs_below 2 0 b"
    "hard_break_free 0 b" "\<forall>c\<in>set b. \<not> inline_marker c" "markers_not_first True b"
    "no_url False b" "lt_before_p b"
    by (simp_all add: block_ok_def quiet_def)
  from r have r': "rest \<noteq> []" "\<not> is_space (hd rest)" "\<not> is_space (last rest)"
    "\<forall>c\<in>set rest. \<not> inline_marker c" "markers_not_first True rest" "no_url False rest"
    "lt_before_p rest" "hard_break_free 0 rest" "runs_below 3 0 rest"
    by (simp_all add: joined_ok_def quiet_def)
  from b'(1,3) have after: "spaces_after 0 b = 0" "newlines_after 0 b = 0"
    using not_space_chars [of "last b"] by (simp_all add: spaces_after_last newlines_after_last)
  have nl: "is_line_terminator (CHR ''\<newline>'')" "\<not> inline_marker (CHR ''\<newline>'')"
    by (simp_all add: is_line_terminator_def inline_marker_def code_def)
  with b'(6) r'(4) have chars: "\<forall>c\<in>set (b @ ''\<newline>\<newline>'' @ rest). \<not> inline_marker c" by auto
  have first: "markers_not_first True (b @ ''\<newline>\<newline>'' @ rest)"
    using b'(7) r'(5) nl(1) by (simp add: markers_not_first_append)
  have url: "no_url False (b @ ''\<newline>\<newline>'' @ rest)"
    using b'(8) r'(6) by (simp add: no_url_append)
  have "lt_before_p ''\<newline>\<newline>''" by (rule lt_before_p_no_lt) simp
  with b'(9) r'(7) have lt: "lt_before_p (b @ ''\<newline>\<newline>'' @ rest)"
    by (intro lt_before_p_append)
  have hbf: "hard_break_free 0 (b @ ''\<newline>\<newline>'' @ rest)"
    using b'(5) r'(8) after by (simp add: hard_break_free_append)
  from r'(1,2) have "runs_below 3 2 rest = runs_below 3 0 rest"
    using not_space_chars [of "hd rest"] runs_below_hd [of rest 3 2] by simp
  with r'(9) have tail: "runs_below 3 0 (''\<newline>\<newline>'' @ rest)"
    by (simp add: numeral_2_eq_2)
  from runs_below_mono [OF b'(4), of 3 0] have "runs_below 3 0 b" by simp
  with tail after(2) have runs: "runs_below 3 0 (b @ ''\<newline>\<newline>'' @ rest)"
    by (simp only: runs_below_append [of 3 0 b] simp_thms)
  from b'(1,2) r'(1,3) chars first url lt hbf runs show ?thesis
    by (simp add: joined_ok_def quiet_def)
qed

lemma joined_blocks:
  "B \<noteq> [] \<Longrightarrow> \<forall>b\<in>set B. block_ok b \<Longrightarrow> joined_ok (join B ''\<newline>\<newline>'')"
proof (induction B)
  case Nil
  then show ?case by simp
next
  case (Cons b B)
  show ?case
  proof (cases "B = []")
    case True
    with Cons.prems show ?thesis by (simp add: joined_block)
  next
    case False
    with Cons have "joined_ok (join B ''\<newline>\<newline>'')" "block_ok b" by simp_all
    from joined_step [OF this(2) this(1)] False show ?thesis by (simp add: join_Cons)
  qed
qed

lemma blank_lines_identity:
  assumes "runs_below 3 0 x"
  shows "replace blank_lines (\<lambda>m c. ''\<newline>\<newline>'') x = x"
proof -
  let ?ms = "all_matches blank_lines x 0"
  have ch: "chain 0 ?ms (length x)" by (rule all_matches_chain)
  have "substring x i j = ''\<newline>\<newline>''" if mem: "(i, j, c) \<in> set ?ms" for i j c
  proof -
    from blank_lines_match [OF mem] obtain m where
      m: "2 \<le> m" "substring x i j = replicate m (CHR ''\<newline>'')" by blast
    from chain_mem [OF ch mem] have b: "i \<le> j" "j \<le> length x" by simp_all
    have "x = take i x @ substring x i j @ drop j x"
      using substring_drop [OF b(1), of x] by simp
    with assms m(2) have "runs_below 3 0 (take i x @ replicate m (CHR ''\<newline>'') @ drop j x)"
      by simp
    then have "runs_below 3 (newlines_after 0 (take i x)) (replicate m (CHR ''\<newline>'') @ drop j x)"
      by (simp add: runs_below_append)
    from runs_below_replicate [OF this] m(1) have "m = 2" by simp
    with m(2) show ?thesis by (simp add: numeral_2_eq_2)
  qed
  then have "\<forall>(i, j, c)\<in>set ?ms. (\<lambda>m c. ''\<newline>\<newline>'') (substring x i j) c = substring x i j"
    by auto
  from splice_identity [OF ch this] show ?thesis by (simp add: replace_def)
qed

lemma pipeline_joined:
  assumes "B \<noteq> []" and "\<forall>b\<in>set B. block_ok b"
  shows "pipeline (join B ''\<newline>\<newline>'') = Inr (join B ''\<newline>\<newline>'')"
proof -
  let ?x = "join B ''\<newline>\<newline>''"
  from joined_blocks [OF assms] have j: "?x \<noteq> []" "\<not> is_space (hd ?x)" "\<not> is_space (last ?x)"
    "quiet ?x" "hard_break_free 0 ?x" "runs_below 3 0 ?x"
    by (simp_all add: joined_ok_def)
  from parseLineBreaks_plain(1) [OF j(5)] blank_lines_identity [OF j(6)]
  have 1: "parseLineBreaks ?x = ?x" by simp
  from assms(2) have "\<forall>b\<in>set B. runs_below 2 0 b \<and> b \<noteq> [] \<and> last b \<noteq> CHR ''\<newline>''"
    using not_space_chars by (auto simp: block_ok_def)
  from split_join_blocks [OF assms(1) this] paragraphs_of_blocks [OF assms(2)]
  have 2: "parseParagraphs ?x = ?x" by (simp add: parseParagraphs_def)
  from pipeline_quiet [OF j(4)] 1 2 trim_id [OF j(1,2,3)] show ?thesis by simp
qed

text \<open>
  On plain text the round trip holds. For every plain text, parsing the output of the
  parser gives that output again: the first run wraps the blocks in \<open><p>\<close>, and on
  the second run no expression matches, the blocks are found again by the split and each
  of them starts with a block tag, so none is wrapped again.
\<close>

lemma plain_text_round_trip:
  assumes "plain s"
  shows "\<exists>h. parseMarkdown (JString s) = Inr h \<and> parseMarkdown (JString h) = Inr h"
proof (cases "s = []")
  case True
  then show ?thesis by (simp add: parseMarkdown_def)
next
  case False
  from assms have chars: "\<forall>c\<in>set s. \<not> inline_marker c \<and> c \<noteq> CHR ''<''"
    and first: "markers_not_first True s" and url: "no_url False s"
    and hbf: "hard_break_free 0 s"
    by (simp_all add: plain_def list_all_iff)
  from chars first url have "quiet s" by (auto simp: quiet_def intro: lt_before_p_no_lt)
  let ?T = "parseLineBreaks s"
  let ?B = "paragraphs_of (split ?T ''\<newline>\<newline>'')"
  let ?O = "join ?B ''\<newline>\<newline>''"
  from pipeline_quiet [OF \<open>quiet s\<close>] False
  have run: "parseMarkdown (JString s) = Inr (trim ?O)"
    by (simp add: parseMarkdown_def parseParagraphs_def)
  have "\<not> inline_marker (CHR ''\<newline>'')" by (simp add: inline_marker_def)
  with chars parseLineBreaks_plain(3) [OF hbf]
  have T: "\<forall>c\<in>set ?T. \<not> inline_marker c \<and> c \<noteq> CHR ''<''" by auto
  note T_first = parseLineBreaks_plain(4) [OF hbf first]
  note T_url = parseLineBreaks_plain(5) [OF hbf url]
  have "piece_ok x" if "x \<in> set (split ?T ''\<newline>\<newline>'')" for x
  proof -
    from split_start [OF that] obtain u v where
      uv: "?T = u @ x @ v" and u: "u = [] \<or> u \<noteq> [] \<and> last u = CHR ''\<newline>''" by blast
    from uv parseLineBreaks_plain(2) [OF hbf] have 1: "hard_break_free 0 x"
      by (metis hard_break_free_sub)
    from uv T_url have 2: "no_url False x" by (metis no_url_sub)
    have "is_line_terminator (CHR ''\<newline>'')" by (simp add: is_line_terminator_def code_def)
    with u have "blank_after True u = True"
      using blank_after_terminator [of u True] by auto
    with uv T_first have "markers_not_first True (x @ v)"
      by (simp add: markers_not_first_append)
    then have 3: "markers_not_first True x" by (simp add: markers_not_first_append)
    from 1 2 3 split_set [OF that] T split_blank_line_free [OF that] show ?thesis
      by (auto simp: piece_ok_def)
  qed
  then have blocks: "\<forall>b\<in>set ?B. block_ok b" by (intro paragraphs_blocks) blast
  show ?thesis
  proof (cases "?B = []")
    case True
    with run show ?thesis by (simp add: trim_def parseMarkdown_def)
  next
    case nonempty: False
    from joined_blocks [OF nonempty blocks]
    have "?O \<noteq> []" "trim ?O = ?O" by (simp_all add: joined_ok_def trim_id)
    with run pipeline_joined [OF nonempty blocks] show ?thesis
      by (simp add: parseMarkdown_def)
  qed
qed

lemma plain_text_round_trip_example:
  "plain ''Notes - 2 items: a > b\<newline>\<newline>\<newline>Second paragraph, line 1\<newline>line 2 ''
   \<and> parseMarkdown (JString ''Notes - 2 items: a > b\<newline>\<newline>\<newline>Second paragraph, line 1\<newline>line 2 '') =
       Inr ''<p>Notes - 2 items: a > b</p>\<newline>\<newline><p>Second paragraph, line 1\<newline>line 2</p>''
   \<and> parseMarkdown (JString ''<p>Notes - 2 items: a > b</p>\<newline>\<newline><p>Second paragraph, line 1\<newline>line 2</p>'') =
       Inr ''<p>Notes - 2 items: a > b</p>\<newline>\<newline><p>Second paragraph, line 1\<newline>line 2</p>''"
proof -
  let ?s = "''Notes - 2 items: a > b\<newline>\<newline>\<newline>Second paragraph, line 1\<newline>line 2 ''"
  have p: "plain ?s" by code_simp
  have run: "parseMarkdown (JString ?s) =
      Inr ''<p>Notes - 2 items: a > b</p>\<newline>\<newline><p>Second paragraph, line 1\<newline>line 2</p>''"
    by code_simp
  from plain_text_round_trip [OF p] obtain h where
    "parseMarkdown (JString ?s) = Inr h" "parseMarkdown (JString h) = Inr h" by blast
  with run p show ?thesis by simp
qed


end
